theory Spec2Isabelle
  imports Main "HOL-Library.Multiset"
begin

section \<open>Values of the host language\<close>

text \<open>
  The service is TypeScript running in a browser. A \<^verbatim>\<open>number\<close> that comes out of
  \<^verbatim>\<open>parseInt\<close> is an integer or \<^verbatim>\<open>NaN\<close>; a string is a sequence of UTF-16 code
  units. An exception (a rejected promise) is a value of \<open>exn\<close>: \<open>HTTPError\<close> stands for
  every way in which \<^verbatim>\<open>ky.get\<close> rejects, \<open>TypeError\<close> for a property read on
  \<^verbatim>\<open>null\<close> or \<^verbatim>\<open>undefined\<close>.
\<close>

datatype js_number = Num int | NaN

type_synonym js_string = "nat list"

datatype exn = HTTPError | TypeError

text \<open>\<^verbatim>\<open>a === b\<close> on numbers: \<^verbatim>\<open>NaN\<close> is equal to nothing, itself included.\<close>

fun strict_eq :: "js_number \<Rightarrow> js_number \<Rightarrow> bool" where
  "strict_eq (Num a) (Num b) = (a = b)"
| "strict_eq _ _ = False"

text \<open>\<^verbatim>\<open>a - 1\<close> on numbers.\<close>

fun minus_one :: "js_number \<Rightarrow> js_number" where
  "minus_one (Num a) = Num (a - 1)"
| "minus_one NaN = NaN"

text \<open>
  The length \<^verbatim>\<open>Array.from({ length: n }, ...)\<close> uses: \<^verbatim>\<open>NaN\<close> and every number
  below 1 give an empty array.
\<close>

fun toLength :: "js_number \<Rightarrow> nat" where
  "toLength (Num a) = nat a"
| "toLength NaN = 0"

text \<open>Decimal digits of a number, as a template literal \<^verbatim>\<open>${n}\<close> prints it.\<close>

fun digits :: "nat \<Rightarrow> js_string" where
  "digits n = (if n < 10 then [48 + n] else digits (n div 10) @ [48 + n mod 10])"

fun toString :: "js_number \<Rightarrow> js_string" where
  "toString (Num a) = (if a < 0 then 45 # digits (nat (- a)) else digits (nat a))"
| "toString NaN = [78, 97, 78]"

text \<open>\<^verbatim>\<open>s.includes(t)\<close>, \<^verbatim>\<open>s.substring(0, n)\<close> and \<^verbatim>\<open>s.trim()\<close> on strings.\<close>

definition includes_str :: "js_string \<Rightarrow> js_string \<Rightarrow> bool" where
  "includes_str s t = list_ex (\<lambda>k. take (length t) (drop k s) = t) [0..<Suc (length s)]"

definition is_white_space :: "nat \<Rightarrow> bool" where
  "is_white_space c =
     (c \<in> {9, 10, 11, 12, 13, 32, 0xA0, 0x1680, 0x2028, 0x2029, 0x202F, 0x205F, 0x3000, 0xFEFF}
      \<or> (0x2000 \<le> c \<and> c \<le> 0x200A))"

definition trim :: "js_string \<Rightarrow> js_string" where
  "trim s = rev (dropWhile is_white_space (rev (dropWhile is_white_space s)))"

section \<open>The data model\<close>

text \<open>
  \<^verbatim>\<open>interface Book\<close>. A row parsed out of a listing page carries \<^verbatim>\<open>id\<close> and
  \<^verbatim>\<open>name\<close> only (the source casts it to \<^verbatim>\<open>Book\<close> with \<^verbatim>\<open>series: null\<close> and never
  reads the other fields of a row), so a row is the record \<open>fetched\<close> and a book of the
  collection extends it. The field \<^verbatim>\<open>id\<close> is written \<open>id'\<close>.
\<close>

record fetched =
  id' :: js_number
  name :: js_string

record book = fetched +
  series :: "js_string option"
  favorite :: bool
  bookmark :: bool

text \<open>\<^verbatim>\<open>loadingMessage\<close>: \<^verbatim>\<open>{ msg: string; error?: boolean } | null\<close>.\<close>

record message =
  msg :: js_string
  error :: "bool option"

text \<open>A GET request the service issues: a listing page or a product page.\<close>

datatype request = GetList nat | GetProduct js_number

text \<open>
  The reactive \<^verbatim>\<open>state\<close> object, and the part of the browser the service writes to:
  the two keys of \<^verbatim>\<open>localStorage\<close> (the list whose JSON text is stored, \<open>None\<close> for a
  key that was never set) and the log of the GET requests made so far. Writing to
  \<^verbatim>\<open>localStorage\<close> is taken to succeed.
\<close>

record state =
  books :: "book list"
  topSeries :: "js_string list"
  loading :: bool
  loadingMessage :: "message option"

record browser = state +
  localStorage_books :: "book list option"
  localStorage_topSeries :: "js_string list option"
  requests :: "request list"

section \<open>The label set\<close>

text \<open>
  \<^verbatim>\<open>switchTopSeries\<close>: remove every occurrence of the name when it is in the list,
  push it otherwise; then store the list.
\<close>

definition switchTopSeries :: "js_string \<Rightarrow> browser \<Rightarrow> browser" where
  "switchTopSeries nm s =
     (let s1 = (if nm \<in> set (topSeries s)
                then s\<lparr>topSeries := filter (\<lambda>x. x \<noteq> nm) (topSeries s)\<rparr>
                else s\<lparr>topSeries := topSeries s @ [nm]\<rparr>)
      in s1\<lparr>localStorage_topSeries := Some (topSeries s1)\<rparr>)"

section \<open>The merge of a fetched row with the previous collection\<close>

text \<open>
  The function \<^verbatim>\<open>recordBookList\<close> is local to \<^verbatim>\<open>reloadCollection\<close> and closes over
  \<^verbatim>\<open>originBooks\<close>, which is a parameter here. \<open>mergeBook\<close> is the arrow function it maps
  over the rows: \<^verbatim>\<open>originBooks.find(old => old.id === book.id)\<close> is the first previous book
  with the row's id.
\<close>

definition saveBooks :: "browser \<Rightarrow> browser" where
  "saveBooks s = s\<lparr>localStorage_books := Some (books s)\<rparr>"

definition mergeBook :: "book list \<Rightarrow> fetched \<Rightarrow> book" where
  "mergeBook originBooks b =
     (let oldBook = find (\<lambda>old. strict_eq (id' old) (id' b)) originBooks
      in \<lparr>id' = id' b, name = name b,
          series = (case oldBook of None \<Rightarrow> None | Some old \<Rightarrow> series old),
          favorite = (case oldBook of None \<Rightarrow> False | Some old \<Rightarrow> favorite old),
          bookmark = (case oldBook of None \<Rightarrow> False | Some old \<Rightarrow> bookmark old)\<rparr>)"

definition recordBookList :: "book list \<Rightarrow> fetched list \<Rightarrow> browser \<Rightarrow> browser" where
  "recordBookList originBooks bs s =
     saveBooks (s\<lparr>books := books s @ map (mergeBook originBooks) bs\<rparr>)"

section \<open>The network, as the service sees it\<close>

text \<open>
  The markup of a page is outside the service; a document is what the two DOM queries
  of the source find in it. \<open>order_book\<close> is the list of rows that the expression
  \<^verbatim>\<open>Array.from(doc.getElementById("order_book")!.getElementsByClassName("buy_info")).map(...)\<close>
  of \<^verbatim>\<open>loadAvailableBookList\<close> evaluates to, \<open>None\<close> when its evaluation throws.
  \<open>bw_pagination\<close> is the number \<^verbatim>\<open>parseInt\<close> reads off the element that
  \<^verbatim>\<open>parsePageCount\<close> reaches from the first element of class \<^verbatim>\<open>bw_pagination\<close>,
  \<open>None\<close> when an element on the way to it is missing.
\<close>

record document =
  order_book :: "fetched list option"
  bw_pagination :: "js_number option"

text \<open>
  The answer to \<^verbatim>\<open>ky.get\<close> of a listing page: the request fails, or it is redirected
  (the login page), or it delivers a document.
\<close>

datatype list_response = ListFailed | ListRedirected | ListHtml document

text \<open>
  The element \<^verbatim>\<open>loadSeries\<close> reaches from \<^verbatim>\<open>breadcrumb_list\<close> in a product page,
  \<open>None\<close> when an element on the way to it, or its \<^verbatim>\<open>href\<close>, is missing.
\<close>

record anchor =
  href :: js_string
  innerHTML :: js_string

datatype product_response = ProductFailed | ProductHtml "anchor option"

record network =
  available_book_list :: "nat \<Rightarrow> list_response"
  product :: "js_number \<Rightarrow> product_response"

section \<open>Loading a listing page and a series\<close>

datatype load_error = NO_LOGIN | PARSING_ERROR

text \<open>
  The object \<^verbatim>\<open>loadAvailableBookList\<close> resolves to: each of \<^verbatim>\<open>doc\<close>, \<^verbatim>\<open>books\<close>
  and \<^verbatim>\<open>error\<close> is optional (\<open>books'\<close> and \<open>error'\<close> here).
\<close>

record load_result =
  doc :: "document option"
  books' :: "fetched list option"
  error' :: "load_error option"

text \<open>
  \<^verbatim>\<open>loadAvailableBookList\<close> issues the request; \<open>loadAvailableBookList_response\<close> is
  what it makes of the answer.
\<close>

definition loadAvailableBookList_response :: "list_response \<Rightarrow> exn + load_result" where
  "loadAvailableBookList_response response =
     (case response of
        ListFailed \<Rightarrow> Inl HTTPError
      | ListRedirected \<Rightarrow> Inr \<lparr>doc = None, books' = None, error' = Some NO_LOGIN\<rparr>
      | ListHtml d \<Rightarrow>
          (case order_book d of
             None \<Rightarrow> Inr \<lparr>doc = None, books' = None, error' = Some PARSING_ERROR\<rparr>
           | Some bs \<Rightarrow> Inr \<lparr>doc = Some d, books' = Some bs, error' = None\<rparr>))"

definition loadAvailableBookList ::
  "network \<Rightarrow> nat \<Rightarrow> browser \<Rightarrow> (exn + load_result) \<times> browser" where
  "loadAvailableBookList net page s =
     (loadAvailableBookList_response (available_book_list net page),
      s\<lparr>requests := requests s @ [GetList page]\<rparr>)"

definition parsePageCount :: "document \<Rightarrow> exn + js_number" where
  "parsePageCount d = (case bw_pagination d of None \<Rightarrow> Inl TypeError | Some n \<Rightarrow> Inr n)"

text \<open>The literal \<^verbatim>\<open>"/search/?series="\<close>.\<close>

definition series_query :: js_string where
  "series_query = [47, 115, 101, 97, 114, 99, 104, 47, 63, 115, 101, 114, 105, 101, 115, 61]"

text \<open>
  \<^verbatim>\<open>loadSeries\<close>: the request may fail before the \<^verbatim>\<open>try\<close>; inside it a missing
  element is logged and thrown again. \<open>loadSeries_response\<close> is what the function makes
  of the answer.
\<close>

definition loadSeries_response :: "product_response \<Rightarrow> exn + js_string" where
  "loadSeries_response response =
     (case response of
        ProductFailed \<Rightarrow> Inl HTTPError
      | ProductHtml None \<Rightarrow> Inl TypeError
      | ProductHtml (Some element) \<Rightarrow>
          Inr (if includes_str (href element) series_query
               then trim (take (length (innerHTML element) - 2) (innerHTML element))
               else []))"

definition loadSeries :: "network \<Rightarrow> js_number \<Rightarrow> browser \<Rightarrow> (exn + js_string) \<times> browser" where
  "loadSeries net i s =
     (loadSeries_response (product net i), s\<lparr>requests := requests s @ [GetProduct i]\<rparr>)"

section \<open>The bounded-concurrency mapper\<close>

text \<open>
  \<^verbatim>\<open>parallelMap\<close> is imported from \<^verbatim>\<open>@/utilities/Parallel\<close>, a module that is not
  among the sources this development is written from; its definitions follow the
  specification of the mapper.

  An operation of the service awaits one response and then runs to its end without
  another suspension, so it takes effect on the state in one piece when its response
  arrives (its request is entered in the log then); the order in which the responses
  arrive is the schedule, a list of numbers, each choosing among the operations in flight
  (\<open>0\<close> once the list is used up).
\<close>

text \<open>
  Modelled from the spec: the \<^verbatim>\<open>Result\<close> the mapper records for an input
  (section 4.1): the value the operation resolved to, or the failure it threw or rejected
  with.
\<close>

datatype 'r result = Success 'r | Failure exn

fun settle :: "exn + 'r \<Rightarrow> 'r result" where
  "settle (Inl e) = Failure e"
| "settle (Inr v) = Success v"

text \<open>
  Modelled from the spec: the worker pool of \<^verbatim>\<open>parallelMap\<close> (section 4.1). A job is an
  input with its index. While an operation is in flight, one of them completes: its
  outcome, success or failure, is recorded at its index, \<open>onProgress\<close> is called with
  the number of inputs completed so far, and the next input that was not started, if there
  is one, is started. \<open>finished\<close> lists the completed jobs in the order of completion.
\<close>

function run_pool ::
  "('a \<Rightarrow> 's \<Rightarrow> (exn + 'r) \<times> 's) \<Rightarrow> (nat \<Rightarrow> 's \<Rightarrow> 's) \<Rightarrow> nat list \<Rightarrow>
   (nat \<times> 'a) list \<Rightarrow> (nat \<times> 'a) list \<Rightarrow> 'r result option list \<Rightarrow> (nat \<times> 'a) list \<Rightarrow> 's \<Rightarrow>
   'r result option list \<times> (nat \<times> 'a) list \<times> 's" where
  "run_pool oper onProgress sched pending inflight results finished s =
     (if inflight = [] then (results, finished, s)
      else
        let k = (case sched of [] \<Rightarrow> 0 | c # _ \<Rightarrow> c mod length inflight);
            job = inflight ! k;
            (r, s1) = oper (snd job) s;
            results1 = results[fst job := Some (settle r)];
            finished1 = finished @ [job];
            s2 = onProgress (length finished1) s1
        in run_pool oper onProgress (tl sched) (drop 1 pending)
             (take k inflight @ drop (Suc k) inflight @ take 1 pending)
             results1 finished1 s2)"
  by pat_completeness auto
termination
  apply (relation "measure (\<lambda>(oper, onProgress, sched, pending, inflight, results, finished, s).
                    length pending + length inflight)")
   apply simp
  subgoal for oper onProgress sched pending inflight
    by (cases inflight; cases pending) (auto split: list.splits simp: min_def)
  done

declare run_pool.simps [simp del]

text \<open>
  Modelled from the spec: \<^verbatim>\<open>parallelMap(inputs, op, limit, onProgress)\<close> (section 4.1).
  The first \<open>limit\<close> inputs are started at once. The promise resolves to the recorded
  results, in the order of the inputs, when every input has one; \<open>None\<close> is a promise
  that never resolves.
\<close>

definition parallelMap ::
  "'a list \<Rightarrow> ('a \<Rightarrow> 's \<Rightarrow> (exn + 'r) \<times> 's) \<Rightarrow> nat \<Rightarrow> (nat \<Rightarrow> 's \<Rightarrow> 's) \<Rightarrow> nat list \<Rightarrow> 's \<Rightarrow>
   ('r result list \<times> 's) option" where
  "parallelMap inputs oper limit onProgress sched s =
     (let jobs = zip [0..<length inputs] inputs;
          (results, finished, s1) =
            run_pool oper onProgress sched (drop limit jobs) (take limit jobs)
              (replicate (length inputs) None) [] s
      in case those results of None \<Rightarrow> None | Some rs \<Rightarrow> Some (rs, s1))"

section \<open>The synchronization run\<close>

text \<open>
  The messages, as UTF-16 code units. \<open>msg_no_login\<close> asks the user to check the login at
  the Book Walker site, \<open>msg_parsing_error\<close> to check the site or to update the helper
  after a change of its layout, \<open>msg_partial_failure\<close> says that a part of the collection
  failed and to try again; \<open>books_loading\<close> and \<open>series_loading\<close> are the prefixes of the
  two progress messages, which end in \<^verbatim>\<open>${done} / ${total}\<close>.
\<close>

definition msg_no_login :: js_string where
  "msg_no_login =
     [0x89E3, 0x6790, 0x85CF, 0x66F8, 0x5931, 0x6557, 0xFF01, 0x8ACB, 0x6AA2, 0x67E5, 0x662F,
      0x5426, 0x5DF2, 0x767B, 0x5165, 32, 66, 111, 111, 107, 32, 87, 97, 108, 107, 101, 114, 32,
      0x7DB2, 0x7AD9, 0x3002]"

definition msg_parsing_error :: js_string where
  "msg_parsing_error =
     [0x89E3, 0x6790, 0x85CF, 0x66F8, 0x5931, 0x6557, 0xFF01, 0x8ACB, 0x6AA2, 0x67E5, 32, 66,
      111, 111, 107, 32, 87, 97, 108, 107, 101, 114, 32, 0x7DB2, 0x7AD9, 0x662F, 0x5426, 0x6B63,
      0x5E38, 0xFF0C, 0x6216, 0x5176, 0x7248, 0x9762, 0x6539, 0x7248, 0x9700, 0x8981, 0x66F4,
      0x65B0, 0x52A9, 0x624B, 0x3002]"

definition msg_partial_failure :: js_string where
  "msg_partial_failure =
     [0x89E3, 0x6790, 0x85CF, 0x66F8, 0x6709, 0x90E8, 0x5206, 0x5931, 0x6557, 0xFF01, 0x8ACB,
      0x91CD, 0x8A66, 0x3002]"

definition books_loading :: js_string where
  "books_loading = [0x85CF, 0x66F8, 0x8CC7, 0x6599, 0x8F09, 0x5165, 0x4E2D, 32]"

definition series_loading :: js_string where
  "series_loading = [0x7CFB, 0x5217, 0x8CC7, 0x6599, 0x8F09, 0x5165, 0x4E2D, 32]"

definition progress :: "js_string \<Rightarrow> js_number \<Rightarrow> js_number \<Rightarrow> message" where
  "progress label n m =
     \<lparr>msg = label @ toString n @ [32, 47, 32] @ toString m, error = None\<rparr>"

text \<open>\<^verbatim>\<open>Array.from({ length: pageCount - 1 }, (_, i) => i + 2)\<close>.\<close>

definition pagesNeedLoad :: "js_number \<Rightarrow> nat list" where
  "pagesNeedLoad pageCount = map (\<lambda>i. i + 2) [0..<toLength (minus_one pageCount)]"

text \<open>
  The operation mapped over the pages after the first: the error of the page, or
  \<^verbatim>\<open>null\<close> after its rows are recorded.
\<close>

definition loadPage ::
  "network \<Rightarrow> book list \<Rightarrow> nat \<Rightarrow> browser \<Rightarrow> (exn + load_error option) \<times> browser" where
  "loadPage net originBooks page s =
     (case loadAvailableBookList net page s of
        (Inl e, s1) \<Rightarrow> (Inl e, s1)
      | (Inr res, s1) \<Rightarrow>
          (case error' res of
             Some e \<Rightarrow> (Inr (Some e), s1)
           | None \<Rightarrow>
               (case books' res of
                  None \<Rightarrow> (Inl TypeError, s1)
                | Some bs \<Rightarrow> (Inr None, recordBookList originBooks bs s1))))"

text \<open>
  The operation mapped over the books without a series. The source holds the book by
  reference; here it is the position of the book in \<^verbatim>\<open>state.books\<close>, which no step of the
  enrichment moves.
\<close>

definition loadBookSeries :: "network \<Rightarrow> nat \<Rightarrow> browser \<Rightarrow> (exn + unit) \<times> browser" where
  "loadBookSeries net i s =
     (case loadSeries net (id' (books s ! i)) s of
        (Inl e, s1) \<Rightarrow> (Inl e, s1)
      | (Inr v, s1) \<Rightarrow>
          (Inr (), saveBooks (s1\<lparr>books := (books s1)[i := (books s1 ! i)\<lparr>series := Some v\<rparr>]\<rparr>)))"

text \<open>
  \<^verbatim>\<open>reloadCollection\<close>. The result is \<open>None\<close> when the promise never settles,
  \<open>Inl e\<close> when it is rejected with \<open>e\<close> and \<open>Inr ()\<close> when it is resolved, with the
  state the run leaves. \<open>sched1\<close> and \<open>sched2\<close> are the orders in which the responses
  arrive in the two passes. A result of the mapper is \<^verbatim>\<open>null\<close> exactly when it is
  \<open>Success None\<close>: the test \<^verbatim>\<open>error !== null\<close> holds of an error the operation returned
  and of a failure the mapper recorded.
\<close>

definition reloadCollection ::
  "network \<Rightarrow> nat list \<Rightarrow> nat list \<Rightarrow> browser \<Rightarrow> ((exn + unit) \<times> browser) option" where
  "reloadCollection net sched1 sched2 s0 =
     (let s1 = s0\<lparr>loading := True\<rparr>;
          originBooks = books s1;
          s2 = s1\<lparr>books := []\<rparr>
      in case loadAvailableBookList net 1 s2 of
           (Inl e, s3) \<Rightarrow> Some (Inl e, s3)
         | (Inr res, s3) \<Rightarrow>
             if error' res = Some NO_LOGIN then
               Some (Inr (), s3\<lparr>loadingMessage := Some \<lparr>msg = msg_no_login, error = Some True\<rparr>\<rparr>)
             else if error' res = Some PARSING_ERROR then
               Some (Inr (), s3\<lparr>loadingMessage := Some \<lparr>msg = msg_parsing_error, error = Some True\<rparr>\<rparr>)
             else
               (case doc res of
                  None \<Rightarrow> Some (Inl TypeError, s3)
                | Some d \<Rightarrow>
               (case parsePageCount d of
                  Inl e \<Rightarrow> Some (Inl e, s3)
                | Inr pageCount \<Rightarrow>
               (case books' res of
                  None \<Rightarrow> Some (Inl TypeError, s3)
                | Some bs \<Rightarrow>
                    let s4 = recordBookList originBooks bs s3;
                        s5 = s4\<lparr>loadingMessage := Some (progress books_loading (Num 1) pageCount)\<rparr>;
                        pages = pagesNeedLoad pageCount
                    in case parallelMap pages (loadPage net originBooks) 5
                              (\<lambda>done s. s\<lparr>loadingMessage :=
                                    Some (progress books_loading (Num (int done + 1)) pageCount)\<rparr>)
                              sched1 s5 of
                         None \<Rightarrow> None
                       | Some (loadPageResults, s6) \<Rightarrow>
                           if list_ex (\<lambda>error. error \<noteq> Success None) loadPageResults then
                             Some (Inr (), s6\<lparr>loadingMessage :=
                                    Some \<lparr>msg = msg_partial_failure, error = Some True\<rparr>\<rparr>)
                           else
                             let bookNeedLoadSeries =
                                   filter (\<lambda>i. series (books s6 ! i) = None) [0..<length (books s6)];
                                 bookNeedLoadSeriesCount = length bookNeedLoadSeries
                             in case parallelMap bookNeedLoadSeries (loadBookSeries net) 5
                                       (\<lambda>done s. s\<lparr>loadingMessage :=
                                             Some (progress series_loading (Num (int done))
                                                     (Num (int bookNeedLoadSeriesCount)))\<rparr>)
                                       sched2 s6 of
                                  None \<Rightarrow> None
                                | Some (_, s7) \<Rightarrow>
                                    Some (Inr (), s7\<lparr>loading := False, loadingMessage := None\<rparr>)))))"

section \<open>Notions the statements use\<close>

text \<open>
  The jobs of a pool run one after the other in a given order: the worker pool, whatever
  the schedule, does what \<open>run_seq\<close> does for some order of the jobs.
\<close>

fun run_seq ::
  "('a \<Rightarrow> 's \<Rightarrow> (exn + 'r) \<times> 's) \<Rightarrow> (nat \<Rightarrow> 's \<Rightarrow> 's) \<Rightarrow> (nat \<times> 'a) list \<Rightarrow>
   'r result option list \<Rightarrow> (nat \<times> 'a) list \<Rightarrow> 's \<Rightarrow>
   'r result option list \<times> (nat \<times> 'a) list \<times> 's" where
  "run_seq oper onProgress [] results finished s = (results, finished, s)"
| "run_seq oper onProgress (job # jobs) results finished s =
     (let (r, s1) = oper (snd job) s
      in run_seq oper onProgress jobs (results[fst job := Some (settle r)]) (finished @ [job])
           (onProgress (Suc (length finished)) s1))"

text \<open>
  The rows of listing page \<open>p\<close> when the page is delivered and its rows are found, and
  the books \<^verbatim>\<open>recordBookList\<close> makes of them.
\<close>

definition page_rows :: "network \<Rightarrow> nat \<Rightarrow> fetched list option" where
  "page_rows net p = (case available_book_list net p of ListHtml d \<Rightarrow> order_book d | _ \<Rightarrow> None)"

definition page_records :: "network \<Rightarrow> book list \<Rightarrow> nat \<Rightarrow> book list" where
  "page_records net originBooks p =
     (case page_rows net p of None \<Rightarrow> [] | Some bs \<Rightarrow> map (mergeBook originBooks) bs)"

text \<open>
  What the enrichment does to a book: the series \<^verbatim>\<open>loadSeries\<close> returns for its id is
  written to it; the book is left as it is when \<^verbatim>\<open>loadSeries\<close> throws. \<open>enriched\<close>
  does it to every book of a list that has no series.
\<close>

definition enrich :: "network \<Rightarrow> book \<Rightarrow> book" where
  "enrich net b =
     (case loadSeries_response (product net (id' b)) of
        Inl e \<Rightarrow> b
      | Inr v \<Rightarrow> b\<lparr>series := Some v\<rparr>)"

definition enriched :: "network \<Rightarrow> book list \<Rightarrow> book list" where
  "enriched net bs = map (\<lambda>b. if series b = None then enrich net b else b) bs"

text \<open>
  The pages a run asks for, and the rows of the listing it fetches: the rows of every page
  among them that is delivered with its rows.
\<close>

definition listing_pages :: "network \<Rightarrow> nat list" where
  "listing_pages net =
     (case available_book_list net 1 of
        ListHtml d \<Rightarrow> (case bw_pagination d of Some pageCount \<Rightarrow> 1 # pagesNeedLoad pageCount | None \<Rightarrow> [1])
      | _ \<Rightarrow> [1])"

definition listing :: "network \<Rightarrow> fetched list" where
  "listing net =
     concat (map (\<lambda>p. case page_rows net p of None \<Rightarrow> [] | Some bs \<Rightarrow> bs) (listing_pages net))"

section \<open>Concrete inputs\<close>

text \<open>
  A book of a previous run, two rows, the state of an idle browser that holds a given
  collection, and a listing page with its rows and its page count.
\<close>

definition book_A :: book where
  "book_A = \<lparr>id' = Num 7, name = [65], series = Some [83], favorite = True, bookmark = False\<rparr>"

definition row_A :: fetched where
  "row_A = \<lparr>id' = Num 7, name = [66]\<rparr>"

definition row_B :: fetched where
  "row_B = \<lparr>id' = Num 8, name = [67]\<rparr>"

definition idle :: "book list \<Rightarrow> browser" where
  "idle bs = \<lparr>books = bs, topSeries = [], loading = False, loadingMessage = None,
              localStorage_books = Some bs, localStorage_topSeries = None, requests = []\<rparr>"

definition page :: "fetched list \<Rightarrow> js_number \<Rightarrow> list_response" where
  "page rows n = ListHtml \<lparr>order_book = Some rows, bw_pagination = Some n\<rparr>"

text \<open>
  Networks: every listing page redirects to the login page; page 1 lists the same id
  twice; every product page lacks the breadcrumb; a listing of three pages whose second
  page has no rows to be found; a listing of two pages whose product pages lack the
  breadcrumb; a first page without the pagination.
\<close>

definition net_no_login :: network where
  "net_no_login = \<lparr>available_book_list = (\<lambda>p. ListRedirected), product = (\<lambda>i. ProductFailed)\<rparr>"

definition net_duplicate :: network where
  "net_duplicate = \<lparr>available_book_list = (\<lambda>p. page [row_B, row_B] (Num 1)),
                     product = (\<lambda>i. ProductHtml (Some \<lparr>href = [], innerHTML = []\<rparr>))\<rparr>"

definition net_series_fails :: network where
  "net_series_fails = \<lparr>available_book_list = (\<lambda>p. page [row_A, row_B] (Num 1)),
                     product = (\<lambda>i. ProductHtml None)\<rparr>"

definition net_three_pages :: network where
  "net_three_pages =
     \<lparr>available_book_list =
        (\<lambda>p. if p = 2 then ListHtml \<lparr>order_book = None, bw_pagination = None\<rparr>
             else page [\<lparr>id' = Num (int p), name = [65]\<rparr>] (Num 3)),
      product = (\<lambda>i. ProductHtml None)\<rparr>"

definition net_two_pages :: network where
  "net_two_pages =
     \<lparr>available_book_list = (\<lambda>p. page [if p = 1 then row_A else row_B] (Num 2)),
      product = (\<lambda>i. ProductHtml None)\<rparr>"

definition net_no_pagination :: network where
  "net_no_pagination =
     \<lparr>available_book_list = (\<lambda>p. ListHtml \<lparr>order_book = Some [row_B], bw_pagination = None\<rparr>),
      product = (\<lambda>i. ProductHtml None)\<rparr>"

section \<open>The worker pool runs every job once\<close>

lemma run_pool_Nil:
  "run_pool oper onProgress sched pending [] results finished s = (results, finished, s)"
  by (simp add: run_pool.simps)

lemma run_pool_step:
  assumes "inflight \<noteq> []"
  shows "run_pool oper onProgress sched pending inflight results finished s =
     (let k = (case sched of [] \<Rightarrow> 0 | c # _ \<Rightarrow> c mod length inflight);
          job = inflight ! k;
          (r, s1) = oper (snd job) s
      in run_pool oper onProgress (tl sched) (drop 1 pending)
           (take k inflight @ drop (Suc k) inflight @ take 1 pending)
           (results[fst job := Some (settle r)]) (finished @ [job])
           (onProgress (Suc (length finished)) s1))"
  using assms by (subst run_pool.simps) (simp add: Let_def split: prod.splits)

lemma mset_remove_nth:
  assumes "k < length xs"
  shows "mset xs = add_mset (xs ! k) (mset (take k xs @ drop (Suc k) xs))"
proof -
  have "xs = take k xs @ xs ! k # drop (Suc k) xs"
    using assms by (simp add: id_take_nth_drop)
  then have "mset xs = mset (take k xs @ xs ! k # drop (Suc k) xs)"
    by simp
  then show ?thesis by simp
qed

lemma pool_seq:
  "(inflight = [] \<longrightarrow> pending = []) \<Longrightarrow>
   \<exists>order. mset order = mset (inflight @ pending) \<and>
     run_pool oper onProgress sched pending inflight results finished s =
     run_seq oper onProgress order results finished s"
proof (induction oper onProgress sched pending inflight results finished s rule: run_pool.induct)
  case (1 oper onProgress sched pending inflight results finished s)
  show ?case
  proof (cases "inflight = []")
    case True
    with "1.prems" show ?thesis
      by (intro exI [of _ "[]"]) (simp add: run_pool_Nil)
  next
    case False
    define k where "k = (case sched of [] \<Rightarrow> 0 | c # _ \<Rightarrow> c mod length inflight)"
    define job where "job = inflight ! k"
    obtain r s1 where op: "oper (snd job) s = (r, s1)"
      by (cases "oper (snd job) s")
    define inflight1 where "inflight1 = take k inflight @ drop (Suc k) inflight @ take 1 pending"
    have k: "k < length inflight"
      using False by (auto simp: k_def split: list.splits)
    have nonstuck: "inflight1 = [] \<longrightarrow> drop 1 pending = []"
      by (cases pending) (auto simp: inflight1_def)
    from "1.IH" [OF False k_def job_def refl op [symmetric] refl refl refl, folded inflight1_def, OF nonstuck]
    obtain order where order: "mset order = mset (inflight1 @ drop 1 pending)"
      and run: "run_pool oper onProgress (tl sched) (drop 1 pending) inflight1
          (results[fst job := Some (settle r)]) (finished @ [job])
          (onProgress (length (finished @ [job])) s1) =
        run_seq oper onProgress order (results[fst job := Some (settle r)]) (finished @ [job])
          (onProgress (length (finished @ [job])) s1)"
      by blast
    have "mset (job # order) = mset (inflight @ pending)"
    proof -
      have "mset (inflight1 @ drop 1 pending) =
            mset (take k inflight @ drop (Suc k) inflight) + mset (take 1 pending @ drop 1 pending)"
        by (simp add: inflight1_def)
      also have "\<dots> = mset (take k inflight @ drop (Suc k) inflight) + mset pending"
        by (simp only: append_take_drop_id)
      finally show ?thesis
        using order mset_remove_nth [OF k] by (simp add: job_def)
    qed
    moreover have "run_pool oper onProgress sched pending inflight results finished s =
        run_seq oper onProgress (job # order) results finished s"
      using run by (simp add: run_pool_step [OF False] k_def [symmetric] job_def [symmetric] op
                        inflight1_def Let_def)
    ultimately show ?thesis by blast
  qed
qed

lemma run_seq_results:
  "distinct (map fst order) \<Longrightarrow>
   run_seq oper onProgress order results finished s = (results1, finished1, s1) \<Longrightarrow>
   length results1 = length results \<and> finished1 = finished @ order \<and>
   (\<forall>(i, x) \<in> set order. i < length results \<longrightarrow>
       (\<exists>st. results1 ! i = Some (settle (fst (oper x st))))) \<and>
   (\<forall>i. i \<notin> fst ` set order \<longrightarrow> results1 ! i = results ! i)"
proof (induction order arbitrary: results finished s)
  case Nil
  then show ?case by simp
next
  case (Cons job order)
  obtain r s2 where op: "oper (snd job) s = (r, s2)"
    by (cases "oper (snd job) s")
  from Cons.prems have run:
    "run_seq oper onProgress order (results[fst job := Some (settle r)]) (finished @ [job])
       (onProgress (Suc (length finished)) s2) = (results1, finished1, s1)"
    and dist: "distinct (map fst order)" and fresh: "fst job \<notin> fst ` set order"
    by (simp_all add: op)
  note IH = Cons.IH [OF dist run]
  have here: "fst job < length results \<Longrightarrow> results1 ! fst job = Some (settle (fst (oper (snd job) s)))"
    using IH fresh by (simp add: op)
  have later: "\<And>i x. (i, x) \<in> set order \<Longrightarrow> i < length results \<Longrightarrow>
       \<exists>st. results1 ! i = Some (settle (fst (oper x st)))"
    using IH by fastforce
  have other: "\<And>i. i \<noteq> fst job \<Longrightarrow> i \<notin> fst ` set order \<Longrightarrow> results1 ! i = results ! i"
    using IH by simp
  show ?case
    using IH here later other by (cases job) auto
qed

lemma those_all_Some:
  "(\<forall>i<length xs. \<exists>y. xs ! i = Some y) \<Longrightarrow>
   \<exists>ys. those xs = Some ys \<and> xs = map Some ys"
proof (induction xs)
  case Nil
  then show ?case by simp
next
  case (Cons x xs)
  from Cons.prems obtain y where y: "x = Some y" by fastforce
  from Cons.prems have "\<forall>i<length xs. \<exists>y. xs ! i = Some y" by fastforce
  with Cons.IH obtain ys where "those xs = Some ys" "xs = map Some ys" by blast
  with y show ?case by simp
qed


lemma parallelMap_seq:
  assumes "1 \<le> limit"
  shows "\<exists>order rs s'.
      mset order = mset (zip [0..<length inputs] inputs)
    \<and> run_seq oper onProgress order (replicate (length inputs) None) [] s = (map Some rs, order, s')
    \<and> run_pool oper onProgress sched (drop limit (zip [0..<length inputs] inputs))
          (take limit (zip [0..<length inputs] inputs)) (replicate (length inputs) None) [] s =
        (map Some rs, order, s')
    \<and> parallelMap inputs oper limit onProgress sched s = Some (rs, s')
    \<and> length rs = length inputs
    \<and> (\<forall>i<length inputs. \<exists>st. rs ! i = settle (fst (oper (inputs ! i) st)))"
proof -
  define n where "n = length inputs"
  define jobs where "jobs = zip [0..<n] inputs"
  have fst_jobs: "map fst jobs = [0..<n]"
    by (simp add: jobs_def n_def)
  have nonstuck: "take limit jobs = [] \<longrightarrow> drop limit jobs = []"
    using assms by (cases jobs) auto
  from pool_seq [OF nonstuck]
  obtain order where order: "mset order = mset jobs"
    and pool: "run_pool oper onProgress sched (drop limit jobs) (take limit jobs) (replicate n None) [] s =
               run_seq oper onProgress order (replicate n None) [] s"
    by (metis append_take_drop_id)
  obtain results1 finished1 s1 where
    seq: "run_seq oper onProgress order (replicate n None) [] s = (results1, finished1, s1)"
    by (cases "run_seq oper onProgress order (replicate n None) [] s")
  have "mset (map fst order) = mset (map fst jobs)"
    using order by (metis mset_map)
  then have dist: "distinct (map fst order)"
    using fst_jobs by (metis distinct_upt mset_eq_imp_distinct_iff)
  have sets: "set order = set jobs"
    using order by (rule mset_eq_setD)
  note facts = run_seq_results [OF dist seq]
  have len: "length results1 = n" and fin: "finished1 = order"
    using facts by simp_all
  have at: "\<exists>st. results1 ! i = Some (settle (fst (oper (inputs ! i) st)))" if "i < n" for i
  proof -
    have "(i, inputs ! i) \<in> set order"
      using that unfolding sets jobs_def n_def by (auto simp: set_zip intro!: exI [of _ i])
    with facts that show ?thesis by fastforce
  qed
  then have "\<forall>i<length results1. \<exists>y. results1 ! i = Some y"
    using len by blast
  from those_all_Some [OF this] obtain rs where
    rs: "those results1 = Some rs" "results1 = map Some rs"
    by blast
  have len_rs: "length rs = n"
    using rs(2) len by (metis length_map)
  have "\<exists>st. rs ! i = settle (fst (oper (inputs ! i) st))" if "i < n" for i
    using at [OF that] that len_rs unfolding rs(2) by simp
  moreover have "parallelMap inputs oper limit onProgress sched s = Some (rs, s1)"
    by (simp add: parallelMap_def n_def [symmetric] jobs_def [symmetric] pool seq rs(1))
  moreover have "run_pool oper onProgress sched (drop limit jobs) (take limit jobs)
                   (replicate n None) [] s = (map Some rs, order, s1)"
    using pool seq rs(2) fin by simp
  ultimately show ?thesis
    using order seq rs(2) fin len_rs unfolding jobs_def n_def by blast
qed

lemma loadPage_result:
  "settle (fst (loadPage net ob p s)) = Success None \<longleftrightarrow> page_rows net p \<noteq> None"
  by (auto simp: loadPage_def loadAvailableBookList_def loadAvailableBookList_response_def
        page_rows_def split: list_response.splits option.splits)

lemma loadPage_state:
  assumes "localStorage_books s = Some (books s)"
  shows "snd (loadPage net ob p s) =
         s\<lparr>books := books s @ page_records net ob p,
           localStorage_books := Some (books s @ page_records net ob p),
           requests := requests s @ [GetList p]\<rparr>"
  using assms
  by (intro browser.equality)
     (auto simp: loadPage_def loadAvailableBookList_def loadAvailableBookList_response_def
        page_rows_def page_records_def recordBookList_def saveBooks_def
        split: list_response.splits option.splits)

lemma seq_listing:
  assumes "localStorage_books s = Some (books s)"
  shows "snd (snd (run_seq (loadPage net ob)
            (\<lambda>done s. s\<lparr>loadingMessage := Some (progress books_loading (Num (int done + 1)) pc)\<rparr>)
            order results finished s)) =
         s\<lparr>books := books s @ concat (map (\<lambda>job. page_records net ob (snd job)) order),
           localStorage_books := Some (books s @ concat (map (\<lambda>job. page_records net ob (snd job)) order)),
           requests := requests s @ map (\<lambda>job. GetList (snd job)) order,
           loadingMessage :=
             (if order = [] then loadingMessage s
              else Some (progress books_loading (Num (int (length finished + length order) + 1)) pc))\<rparr>"
  using assms
proof (induction order arbitrary: results finished s)
  case Nil
  then show ?case by (intro browser.equality) simp_all
next
  case (Cons job order)
  obtain r s1 where op: "loadPage net ob (snd job) s = (r, s1)"
    by (cases "loadPage net ob (snd job) s")
  have s1: "s1 = s\<lparr>books := books s @ page_records net ob (snd job),
           localStorage_books := Some (books s @ page_records net ob (snd job)),
           requests := requests s @ [GetList (snd job)]\<rparr>"
    using loadPage_state [OF Cons.prems, of net ob "snd job"] by (simp add: op)
  define s2 where
    "s2 = s1\<lparr>loadingMessage := Some (progress books_loading (Num (int (Suc (length finished)) + 1)) pc)\<rparr>"
  have inv: "localStorage_books s2 = Some (books s2)"
    by (simp add: s2_def s1)
  show ?case
    unfolding run_seq.simps op prod.case Let_def s2_def [symmetric] Cons.IH [OF inv]
    by (intro browser.equality) (simp_all add: s2_def s1)
qed


lemma id_enrich [simp]: "id' (enrich net b) = id' b"
  by (simp add: enrich_def split: sum.splits)

lemma loadBookSeries_state:
  assumes "localStorage_books s = Some (books s)"
  shows "snd (loadBookSeries net i s) =
         s\<lparr>books := (books s)[i := enrich net (books s ! i)],
           localStorage_books := Some ((books s)[i := enrich net (books s ! i)]),
           requests := requests s @ [GetProduct (id' (books s ! i))]\<rparr>"
  using assms
  by (intro browser.equality)
     (auto simp: loadBookSeries_def loadSeries_def enrich_def saveBooks_def split: sum.splits)

lemma seq_enrich:
  assumes "localStorage_books s = Some (books s)"
    and "distinct (map snd order)"
    and "\<forall>job\<in>set order. snd job < length (books s)"
  shows "snd (snd (run_seq (loadBookSeries net)
            (\<lambda>done s. s\<lparr>loadingMessage := Some (progress series_loading (Num (int done)) cnt)\<rparr>)
            order results finished s)) =
         s\<lparr>books := map (\<lambda>i. if i \<in> snd ` set order then enrich net (books s ! i) else books s ! i)
                      [0..<length (books s)],
           localStorage_books :=
             Some (map (\<lambda>i. if i \<in> snd ` set order then enrich net (books s ! i) else books s ! i)
                      [0..<length (books s)]),
           requests := requests s @ map (\<lambda>job. GetProduct (id' (books s ! snd job))) order,
           loadingMessage :=
             (if order = [] then loadingMessage s
              else Some (progress series_loading (Num (int (length finished + length order))) cnt))\<rparr>"
  using assms
proof (induction order arbitrary: results finished s)
  case Nil
  then show ?case by (intro browser.equality) (simp_all add: map_nth)
next
  case (Cons job order)
  define i where "i = snd job"
  define b1 where "b1 = (books s)[i := enrich net (books s ! i)]"
  obtain r s1 where op: "loadBookSeries net (snd job) s = (r, s1)"
    by (cases "loadBookSeries net (snd job) s")
  have s1: "s1 = s\<lparr>books := b1, localStorage_books := Some b1,
                   requests := requests s @ [GetProduct (id' (books s ! i))]\<rparr>"
    using loadBookSeries_state [OF Cons.prems(1), of net "snd job"] by (simp add: op b1_def i_def)
  define s2 where
    "s2 = s1\<lparr>loadingMessage := Some (progress series_loading (Num (int (Suc (length finished)))) cnt)\<rparr>"
  have books2: "books s2 = b1"
    by (simp add: s2_def s1)
  have inv: "localStorage_books s2 = Some (books s2)"
    by (simp add: s2_def s1)
  have fresh: "i \<notin> snd ` set order" and dist: "distinct (map snd order)"
    using Cons.prems(2) by (simp_all add: i_def)
  have i: "i < length (books s)"
    using Cons.prems(3) by (simp add: i_def)
  have bound: "\<forall>job\<in>set order. snd job < length (books s2)"
    using Cons.prems(3) by (simp add: books2 b1_def)
  have bs: "map (\<lambda>j. if j \<in> snd ` set order then enrich net (b1 ! j) else b1 ! j) [0..<length b1] =
            map (\<lambda>j. if j \<in> snd ` set (job # order) then enrich net (books s ! j) else books s ! j)
              [0..<length (books s)]"
    using fresh i by (auto simp: b1_def i_def nth_list_update)
  have rq: "map (\<lambda>job. GetProduct (id' (b1 ! snd job))) order =
            map (\<lambda>job. GetProduct (id' (books s ! snd job))) order"
  proof (rule map_cong [OF refl])
    fix job' assume "job' \<in> set order"
    then have "snd job' \<noteq> i" using fresh by force
    then show "GetProduct (id' (b1 ! snd job')) = GetProduct (id' (books s ! snd job'))"
      by (simp add: b1_def)
  qed
  show ?case
    unfolding run_seq.simps op prod.case Let_def s2_def [symmetric] Cons.IH [OF inv dist bound]
    unfolding books2 bs rq
    by (intro browser.equality) (simp_all add: s2_def s1 i_def)
qed

section \<open>The two passes and the run, in closed form\<close>

lemma listing_stage:
  assumes inv: "localStorage_books s = Some (books s)" and limit: "1 \<le> limit"
  shows "\<exists>order rs.
      mset order = mset pages
    \<and> (list_ex (\<lambda>error. error \<noteq> Success None) rs \<longleftrightarrow> (\<exists>p\<in>set pages. page_rows net p = None))
    \<and> parallelMap pages (loadPage net ob) limit
         (\<lambda>done s. s\<lparr>loadingMessage := Some (progress books_loading (Num (int done + 1)) pc)\<rparr>)
         sched s =
       Some (rs,
         s\<lparr>books := books s @ concat (map (page_records net ob) order),
           localStorage_books := Some (books s @ concat (map (page_records net ob) order)),
           requests := requests s @ map GetList order,
           loadingMessage :=
             (if pages = [] then loadingMessage s
              else Some (progress books_loading (Num (int (length pages) + 1)) pc))\<rparr>)"
proof -
  let ?onP = "\<lambda>done s. s\<lparr>loadingMessage := Some (progress books_loading (Num (int done + 1)) pc)\<rparr>"
  from parallelMap_seq [OF limit, of pages "loadPage net ob" ?onP s sched]
  obtain jobs rs s' where
    jobs: "mset jobs = mset (zip [0..<length pages] pages)"
    and seq: "run_seq (loadPage net ob) ?onP jobs (replicate (length pages) None) [] s = (map Some rs, jobs, s')"
    and par: "parallelMap pages (loadPage net ob) limit ?onP sched s = Some (rs, s')"
    and len: "length rs = length pages"
    and at: "\<forall>i<length pages. \<exists>st. rs ! i = settle (fst (loadPage net ob (pages ! i) st))"
    by blast
  define order where "order = map snd jobs"
  have "mset order = mset (map snd (zip [0..<length pages] pages))"
    unfolding order_def using jobs by (metis mset_map)
  then have order: "mset order = mset pages"
    by simp
  have len_jobs: "length jobs = length pages"
    using jobs by (metis length_zip length_upt min.idem mset_eq_length diff_zero)
  have ok: "rs ! i = Success None \<longleftrightarrow> page_rows net (pages ! i) \<noteq> None" if "i < length pages" for i
    using at that loadPage_result by metis
  have "list_ex (\<lambda>error. error \<noteq> Success None) rs \<longleftrightarrow> (\<exists>i<length pages. rs ! i \<noteq> Success None)"
    unfolding list_ex_iff using len by (metis in_set_conv_nth)
  also have "\<dots> \<longleftrightarrow> (\<exists>i<length pages. page_rows net (pages ! i) = None)"
    using ok by blast
  also have "\<dots> \<longleftrightarrow> (\<exists>p\<in>set pages. page_rows net p = None)"
    by (metis in_set_conv_nth)
  finally have some: "list_ex (\<lambda>error. error \<noteq> Success None) rs \<longleftrightarrow> (\<exists>p\<in>set pages. page_rows net p = None)" .
  have "s' = snd (snd (run_seq (loadPage net ob) ?onP jobs (replicate (length pages) None) [] s))"
    by (simp add: seq)
  also have "\<dots> =
         s\<lparr>books := books s @ concat (map (page_records net ob) order),
           localStorage_books := Some (books s @ concat (map (page_records net ob) order)),
           requests := requests s @ map GetList order,
           loadingMessage :=
             (if pages = [] then loadingMessage s
              else Some (progress books_loading (Num (int (length pages) + 1)) pc))\<rparr>"
    unfolding seq_listing [OF inv] order_def using len_jobs
    by (intro browser.equality) (auto simp: comp_def)
  finally show ?thesis
    using order some par by blast
qed

lemma enrichment_stage:
  assumes inv: "localStorage_books s = Some (books s)" and limit: "1 \<le> limit"
  defines "items \<equiv> filter (\<lambda>i. series (books s ! i) = None) [0..<length (books s)]"
  shows "\<exists>order rs.
      mset order = mset items
    \<and> parallelMap items (loadBookSeries net) limit
         (\<lambda>done s. s\<lparr>loadingMessage := Some (progress series_loading (Num (int done)) cnt)\<rparr>)
         sched s =
       Some (rs,
         s\<lparr>books := enriched net (books s),
           localStorage_books := Some (enriched net (books s)),
           requests := requests s @ map (\<lambda>i. GetProduct (id' (books s ! i))) order,
           loadingMessage :=
             (if items = [] then loadingMessage s
              else Some (progress series_loading (Num (int (length items))) cnt))\<rparr>)"
proof -
  let ?onP = "\<lambda>done s. s\<lparr>loadingMessage := Some (progress series_loading (Num (int done)) cnt)\<rparr>"
  from parallelMap_seq [OF limit, of items "loadBookSeries net" ?onP s sched]
  obtain jobs rs s' where
    jobs: "mset jobs = mset (zip [0..<length items] items)"
    and seq: "run_seq (loadBookSeries net) ?onP jobs (replicate (length items) None) [] s = (map Some rs, jobs, s')"
    and par: "parallelMap items (loadBookSeries net) limit ?onP sched s = Some (rs, s')"
    by blast
  define order where "order = map snd jobs"
  have "mset order = mset (map snd (zip [0..<length items] items))"
    unfolding order_def using jobs by (metis mset_map)
  then have order: "mset order = mset items"
    by simp
  have len_jobs: "length jobs = length items"
    using jobs by (metis length_zip length_upt min.idem mset_eq_length diff_zero)
  have "distinct items"
    by (simp add: items_def)
  then have dist: "distinct (map snd jobs)"
    using order unfolding order_def by (metis mset_eq_imp_distinct_iff)
  have sets: "snd ` set jobs = set items"
    using order unfolding order_def by (metis mset_eq_setD set_map)
  have bound: "\<forall>job\<in>set jobs. snd job < length (books s)"
    using sets by (auto simp: items_def)
  have bs: "map (\<lambda>i. if i \<in> snd ` set jobs then enrich net (books s ! i) else books s ! i)
              [0..<length (books s)] = enriched net (books s)"
    unfolding sets enriched_def by (rule nth_equalityI) (auto simp: items_def)
  have "s' = snd (snd (run_seq (loadBookSeries net) ?onP jobs (replicate (length items) None) [] s))"
    by (simp add: seq)
  also have "\<dots> =
         s\<lparr>books := enriched net (books s),
           localStorage_books := Some (enriched net (books s)),
           requests := requests s @ map (\<lambda>i. GetProduct (id' (books s ! i))) order,
           loadingMessage :=
             (if items = [] then loadingMessage s
              else Some (progress series_loading (Num (int (length items))) cnt))\<rparr>"
    unfolding seq_enrich [OF inv dist bound] bs order_def using len_jobs
    by (intro browser.equality) (auto simp: comp_def)
  finally show ?thesis
    using order par by blast
qed


lemma reload_page1_error:
  assumes "loadAvailableBookList_response (available_book_list net 1) = Inr res"
    and "error' res = Some e"
  shows "reloadCollection net sched1 sched2 s =
         Some (Inr (),
           s\<lparr>books := [], loading := True,
             loadingMessage :=
               Some \<lparr>msg = (case e of NO_LOGIN \<Rightarrow> msg_no_login | PARSING_ERROR \<Rightarrow> msg_parsing_error),
                     error = Some True\<rparr>,
             requests := requests s @ [GetList 1]\<rparr>)"
  using assms
  by (cases e) (simp_all add: reloadCollection_def loadAvailableBookList_def Let_def)

lemma reload_page1_rejected:
  assumes "available_book_list net 1 = ListFailed
           \<or> (\<exists>d bs. available_book_list net 1 = ListHtml d \<and> order_book d = Some bs
                    \<and> bw_pagination d = None)"
  shows "reloadCollection net sched1 sched2 s =
         Some (Inl (if available_book_list net 1 = ListFailed then HTTPError else TypeError),
           s\<lparr>books := [], loading := True, requests := requests s @ [GetList 1]\<rparr>)"
  using assms
  by (auto simp: reloadCollection_def loadAvailableBookList_def loadAvailableBookList_response_def
        parsePageCount_def Let_def)

lemma reload_unfold:
  fixes s :: browser
  assumes "available_book_list net 1 = ListHtml d" "order_book d = Some bs"
    "bw_pagination d = Some pc"
  defines "s5 \<equiv> s\<lparr>loading := True, requests := requests s @ [GetList 1],
                   books := map (mergeBook (books s)) bs,
                   localStorage_books := Some (map (mergeBook (books s)) bs),
                   loadingMessage := Some (progress books_loading (Num 1) pc)\<rparr>"
  shows "reloadCollection net sched1 sched2 s =
     (case parallelMap (pagesNeedLoad pc) (loadPage net (books s)) 5
             (\<lambda>done s. s\<lparr>loadingMessage := Some (progress books_loading (Num (int done + 1)) pc)\<rparr>)
             sched1 s5 of
        None \<Rightarrow> None
      | Some (loadPageResults, s6) \<Rightarrow>
          if list_ex (\<lambda>error. error \<noteq> Success None) loadPageResults then
            Some (Inr (), s6\<lparr>loadingMessage := Some \<lparr>msg = msg_partial_failure, error = Some True\<rparr>\<rparr>)
          else
            (case parallelMap (filter (\<lambda>i. series (books s6 ! i) = None) [0..<length (books s6)])
                    (loadBookSeries net) 5
                    (\<lambda>done s. s\<lparr>loadingMessage :=
                       Some (progress series_loading (Num (int done))
                         (Num (int (length (filter (\<lambda>i. series (books s6 ! i) = None)
                                               [0..<length (books s6)])))))\<rparr>)
                    sched2 s6 of
               None \<Rightarrow> None
             | Some (uu, s7) \<Rightarrow> Some (Inr (), s7\<lparr>loading := False, loadingMessage := None\<rparr>)))"
  using assms(1-3) unfolding s5_def reloadCollection_def Let_def
  by (simp add: loadAvailableBookList_def loadAvailableBookList_response_def
        parsePageCount_def recordBookList_def saveBooks_def)

lemma reload_partial:
  assumes page1: "available_book_list net 1 = ListHtml d" "order_book d = Some bs"
    "bw_pagination d = Some pc"
    and failed: "\<exists>p\<in>set (pagesNeedLoad pc). page_rows net p = None"
  shows "\<exists>order. mset order = mset (pagesNeedLoad pc) \<and>
     reloadCollection net sched1 sched2 s =
       Some (Inr (),
         s\<lparr>books := map (mergeBook (books s)) bs @ concat (map (page_records net (books s)) order),
           loading := True,
           loadingMessage := Some \<lparr>msg = msg_partial_failure, error = Some True\<rparr>,
           localStorage_books :=
             Some (map (mergeBook (books s)) bs @ concat (map (page_records net (books s)) order)),
           requests := requests s @ GetList 1 # map GetList order\<rparr>)"
proof -
  define s5 where "s5 = s\<lparr>loading := True, requests := requests s @ [GetList 1],
                   books := map (mergeBook (books s)) bs,
                   localStorage_books := Some (map (mergeBook (books s)) bs),
                   loadingMessage := Some (progress books_loading (Num 1) pc)\<rparr>"
  have inv: "localStorage_books s5 = Some (books s5)"
    by (simp add: s5_def)
  from listing_stage [OF inv, of 5 "pagesNeedLoad pc" net "books s" pc sched1]
  obtain order rs where order: "mset order = mset (pagesNeedLoad pc)"
    and some: "list_ex (\<lambda>error. error \<noteq> Success None) rs"
    and par: "parallelMap (pagesNeedLoad pc) (loadPage net (books s)) 5
         (\<lambda>done s. s\<lparr>loadingMessage := Some (progress books_loading (Num (int done + 1)) pc)\<rparr>)
         sched1 s5 =
       Some (rs,
         s5\<lparr>books := books s5 @ concat (map (page_records net (books s)) order),
           localStorage_books := Some (books s5 @ concat (map (page_records net (books s)) order)),
           requests := requests s5 @ map GetList order,
           loadingMessage :=
             (if pagesNeedLoad pc = [] then loadingMessage s5
              else Some (progress books_loading (Num (int (length (pagesNeedLoad pc)) + 1)) pc))\<rparr>)"
    using failed by auto
  have "reloadCollection net sched1 sched2 s =
       Some (Inr (),
         s\<lparr>books := map (mergeBook (books s)) bs @ concat (map (page_records net (books s)) order),
           loading := True,
           loadingMessage := Some \<lparr>msg = msg_partial_failure, error = Some True\<rparr>,
           localStorage_books :=
             Some (map (mergeBook (books s)) bs @ concat (map (page_records net (books s)) order)),
           requests := requests s @ GetList 1 # map GetList order\<rparr>)"
    unfolding reload_unfold [OF page1] s5_def [symmetric] par
    using some by (simp add: s5_def)
  with order show ?thesis by blast
qed

lemma reload_success:
  assumes page1: "available_book_list net 1 = ListHtml d" "order_book d = Some bs"
    "bw_pagination d = Some pc"
    and ok: "\<forall>p\<in>set (pagesNeedLoad pc). page_rows net p \<noteq> None"
  shows "\<exists>order B order2.
       mset order = mset (pagesNeedLoad pc)
     \<and> B = map (mergeBook (books s)) bs @ concat (map (page_records net (books s)) order)
     \<and> mset order2 = mset (filter (\<lambda>i. series (B ! i) = None) [0..<length B])
     \<and> reloadCollection net sched1 sched2 s =
       Some (Inr (),
         s\<lparr>books := enriched net B,
           loading := False,
           loadingMessage := None,
           localStorage_books := Some (enriched net B),
           requests := requests s @ GetList 1 # map GetList order
                         @ map (\<lambda>i. GetProduct (id' (B ! i))) order2\<rparr>)"
proof -
  define s5 where "s5 = s\<lparr>loading := True, requests := requests s @ [GetList 1],
                   books := map (mergeBook (books s)) bs,
                   localStorage_books := Some (map (mergeBook (books s)) bs),
                   loadingMessage := Some (progress books_loading (Num 1) pc)\<rparr>"
  have inv: "localStorage_books s5 = Some (books s5)"
    by (simp add: s5_def)
  from listing_stage [OF inv, of 5 "pagesNeedLoad pc" net "books s" pc sched1]
  obtain order rs s6 where order: "mset order = mset (pagesNeedLoad pc)"
    and none: "\<not> list_ex (\<lambda>error. error \<noteq> Success None) rs"
    and s6: "s6 = s5\<lparr>books := books s5 @ concat (map (page_records net (books s)) order),
           localStorage_books := Some (books s5 @ concat (map (page_records net (books s)) order)),
           requests := requests s5 @ map GetList order,
           loadingMessage :=
             (if pagesNeedLoad pc = [] then loadingMessage s5
              else Some (progress books_loading (Num (int (length (pagesNeedLoad pc)) + 1)) pc))\<rparr>"
    and par: "parallelMap (pagesNeedLoad pc) (loadPage net (books s)) 5
         (\<lambda>done s. s\<lparr>loadingMessage := Some (progress books_loading (Num (int done + 1)) pc)\<rparr>)
         sched1 s5 = Some (rs, s6)"
    using ok by auto
  define B where "B = map (mergeBook (books s)) bs @ concat (map (page_records net (books s)) order)"
  have books6: "books s6 = B"
    by (simp add: s6 s5_def B_def)
  have inv6: "localStorage_books s6 = Some (books s6)"
    by (simp add: s6)
  define items where "items = filter (\<lambda>i. series (books s6 ! i) = None) [0..<length (books s6)]"
  from enrichment_stage [OF inv6, of 5 net "Num (int (length items))" sched2, folded items_def]
  obtain order2 rs2 where order2: "mset order2 = mset items"
    and par2: "parallelMap items (loadBookSeries net) 5
         (\<lambda>done s. s\<lparr>loadingMessage :=
              Some (progress series_loading (Num (int done)) (Num (int (length items))))\<rparr>)
         sched2 s6 =
       Some (rs2,
         s6\<lparr>books := enriched net (books s6),
           localStorage_books := Some (enriched net (books s6)),
           requests := requests s6 @ map (\<lambda>i. GetProduct (id' (books s6 ! i))) order2,
           loadingMessage :=
             (if items = [] then loadingMessage s6
              else Some (progress series_loading (Num (int (length items))) (Num (int (length items)))))\<rparr>)"
    by auto
  have "reloadCollection net sched1 sched2 s =
       Some (Inr (),
         s\<lparr>books := enriched net B,
           loading := False,
           loadingMessage := None,
           localStorage_books := Some (enriched net B),
           requests := requests s @ GetList 1 # map GetList order
                         @ map (\<lambda>i. GetProduct (id' (B ! i))) order2\<rparr>)"
    unfolding reload_unfold [OF page1] s5_def [symmetric] par
    using none
    apply (simp only: option.case prod.case if_False items_def [symmetric] par2)
    apply (simp add: books6)
    apply (simp add: s6 s5_def)
    done
  moreover have "mset order2 = mset (filter (\<lambda>i. series (B ! i) = None) [0..<length B])"
    using order2 by (simp add: items_def books6)
  ultimately show ?thesis
    using order B_def by blast
qed

section \<open>Facts about the run\<close>

lemma pagesNeedLoad_1 [simp]: "pagesNeedLoad (Num 1) = []"
  by (simp add: pagesNeedLoad_def)

lemma pagesNeedLoad_2 [simp]: "pagesNeedLoad (Num 2) = [2]"
  by code_simp

lemma pagesNeedLoad_3 [simp]: "pagesNeedLoad (Num 3) = [2, 3]"
  by code_simp

lemma find_first:
  "\<forall>x\<in>set pre. \<not> P x \<Longrightarrow> P y \<Longrightarrow> find P (pre @ y # post) = Some y"
  by (induction pre) auto

lemma mset_concat_map_cong:
  assumes "mset xs = mset ys"
  shows "mset (concat (map f xs)) = mset (concat (map f ys))"
proof -
  have "mset (concat (map f zs)) = sum_mset (image_mset (\<lambda>z. mset (f z)) (mset zs))" for zs
    by (induction zs) simp_all
  then show ?thesis
    using assms by simp
qed

lemma id_mergeBook [simp]: "id' (mergeBook ob b) = id' b"
  by (simp add: mergeBook_def Let_def)

lemma ids_page_records:
  "map id' (page_records net ob p) = map id' (case page_rows net p of None \<Rightarrow> [] | Some bs \<Rightarrow> bs)"
  by (simp add: page_records_def split: option.splits)

lemma ids_enriched [simp]: "map id' (enriched net bs) = map id' bs"
  by (simp add: enriched_def)

lemma ids_concat_records:
  "map id' (concat (map (page_records net ob) order)) =
   map id' (concat (map (\<lambda>p. case page_rows net p of None \<Rightarrow> [] | Some bs \<Rightarrow> bs) order))"
  by (induction order) (simp_all add: ids_page_records)

lemma partial_run:
  assumes "available_book_list net 1 = ListHtml d" "order_book d = Some bs" "bw_pagination d = Some pc"
    and "\<exists>p\<in>set (pagesNeedLoad pc). page_rows net p = None"
  shows "\<exists>order s'.
       mset order = mset (pagesNeedLoad pc)
     \<and> reloadCollection net sched1 sched2 s = Some (Inr (), s')
     \<and> loading s'
     \<and> loadingMessage s' = Some \<lparr>msg = msg_partial_failure, error = Some True\<rparr>
     \<and> books s' = map (mergeBook (books s)) bs @ concat (map (page_records net (books s)) order)
     \<and> localStorage_books s' = Some (books s')
     \<and> requests s' = requests s @ GetList 1 # map GetList order"
  using reload_partial [OF assms, where ?sched1.0 = sched1 and ?sched2.0 = sched2 and s = s]
  apply (elim exE conjE)
  subgoal for order
    apply (rule exI [of _ order])
    apply simp
    done
  done

lemma success_run:
  assumes "available_book_list net 1 = ListHtml d" "order_book d = Some bs" "bw_pagination d = Some pc"
    and "\<forall>p\<in>set (pagesNeedLoad pc). page_rows net p \<noteq> None"
  shows "\<exists>order B order2 s'.
       mset order = mset (pagesNeedLoad pc)
     \<and> B = map (mergeBook (books s)) bs @ concat (map (page_records net (books s)) order)
     \<and> mset order2 = mset (filter (\<lambda>i. series (B ! i) = None) [0..<length B])
     \<and> reloadCollection net sched1 sched2 s = Some (Inr (), s')
     \<and> \<not> loading s'
     \<and> loadingMessage s' = None
     \<and> books s' = enriched net B
     \<and> localStorage_books s' = Some (books s')
     \<and> requests s' = requests s @ GetList 1 # map GetList order
                        @ map (\<lambda>i. GetProduct (id' (B ! i))) order2"
  using reload_success [OF assms, where ?sched1.0 = sched1 and ?sched2.0 = sched2 and s = s]
  apply (elim exE conjE)
  subgoal for order B order2
    apply (rule exI [of _ order])
    apply (rule exI [of _ B])
    apply (rule exI [of _ order2])
    apply simp
    done
  done

lemma reload_cases [case_names failed partial success]:
  obtains
    (failed) r s' where "reloadCollection net sched1 sched2 s = Some (r, s')" "loading s'" "books s' = []"
  | (partial) d bs pc order s' where
      "available_book_list net 1 = ListHtml d" "order_book d = Some bs" "bw_pagination d = Some pc"
      "mset order = mset (pagesNeedLoad pc)"
      "reloadCollection net sched1 sched2 s = Some (Inr (), s')"
      "loading s'"
      "books s' = map (mergeBook (books s)) bs @ concat (map (page_records net (books s)) order)"
  | (success) d bs pc order B s' where
      "available_book_list net 1 = ListHtml d" "order_book d = Some bs" "bw_pagination d = Some pc"
      "mset order = mset (pagesNeedLoad pc)"
      "B = map (mergeBook (books s)) bs @ concat (map (page_records net (books s)) order)"
      "reloadCollection net sched1 sched2 s = Some (Inr (), s')"
      "books s' = enriched net B"
proof (cases "available_book_list net 1")
  case ListFailed
  then show ?thesis
    using reload_page1_rejected [of net sched1 sched2 s] failed by simp
next
  case ListRedirected
  then show ?thesis
    using reload_page1_error [of net "\<lparr>doc = None, books' = None, error' = Some NO_LOGIN\<rparr>"
        NO_LOGIN sched1 sched2 s] failed
    by (simp add: loadAvailableBookList_response_def)
next
  case (ListHtml d)
  show ?thesis
  proof (cases "order_book d")
    case None
    then show ?thesis
      using ListHtml reload_page1_error [of net "\<lparr>doc = None, books' = None, error' = Some PARSING_ERROR\<rparr>"
          PARSING_ERROR sched1 sched2 s] failed
      by (simp add: loadAvailableBookList_response_def)
  next
    case (Some bs)
    show ?thesis
    proof (cases "bw_pagination d")
      case None
      then have "\<exists>d bs. available_book_list net 1 = ListHtml d \<and> order_book d = Some bs
                    \<and> bw_pagination d = None"
        using ListHtml Some by blast
      then show ?thesis
        using reload_page1_rejected [of net sched1 sched2 s] failed by simp
    next
      case pc: (Some pc)
      show ?thesis
      proof (cases "\<exists>p\<in>set (pagesNeedLoad pc). page_rows net p = None")
        case True
        from partial_run [OF ListHtml Some pc True, where ?sched1.0 = sched1 and ?sched2.0 = sched2 and s = s]
        show ?thesis
          using partial [OF ListHtml Some pc] by blast
      next
        case False
        then have ok: "\<forall>p\<in>set (pagesNeedLoad pc). page_rows net p \<noteq> None"
          by simp
        from success_run [OF ListHtml Some pc ok, where ?sched1.0 = sched1 and ?sched2.0 = sched2 and s = s]
        show ?thesis
          using success [OF ListHtml Some pc] by blast
      qed
    qed
  qed
qed

lemma listing_page1:
  assumes "available_book_list net 1 = ListHtml d" "order_book d = Some bs" "bw_pagination d = Some pc"
  shows "listing net =
         bs @ concat (map (\<lambda>p. case page_rows net p of None \<Rightarrow> [] | Some bs \<Rightarrow> bs) (pagesNeedLoad pc))"
  using assms by (simp add: listing_def listing_pages_def page_rows_def)

lemma ids_listing:
  assumes "available_book_list net 1 = ListHtml d" "order_book d = Some bs" "bw_pagination d = Some pc"
    and "mset order = mset (pagesNeedLoad pc)"
  shows "mset (map id' (map (mergeBook ob) bs @ concat (map (page_records net ob) order))) =
         mset (map id' (listing net))"
proof -
  let ?rows = "\<lambda>p. case page_rows net p of None \<Rightarrow> [] | Some bs \<Rightarrow> bs"
  have "mset (concat (map ?rows order)) = mset (concat (map ?rows (pagesNeedLoad pc)))"
    using assms(4) by (rule mset_concat_map_cong)
  then have "mset (map id' (concat (map ?rows order))) =
             mset (map id' (concat (map ?rows (pagesNeedLoad pc))))"
    by (metis mset_map)
  then show ?thesis
    unfolding listing_page1 [OF assms(1-3)] map_append ids_concat_records
    by (simp add: comp_def)
qed

lemma reload_books_ids:
  "\<exists>r s'. reloadCollection net sched1 sched2 s = Some (r, s')
     \<and> (books s' = [] \<or> mset (map id' (books s')) = mset (map id' (listing net)))"
proof (cases rule: reload_cases [of net sched1 sched2 s])
  case (failed r s')
  then show ?thesis by simp
next
  case (partial d bs pc order s')
  have "mset (map id' (books s')) = mset (map id' (listing net))"
    unfolding partial(7) by (rule ids_listing [OF partial(1-4)])
  with partial(5) show ?thesis by blast
next
  case (success d bs pc order B s')
  have "mset (map id' (books s')) = mset (map id' (listing net))"
    unfolding success(7) ids_enriched success(5) by (rule ids_listing [OF success(1-4)])
  with success(6) show ?thesis by blast
qed

lemma enriched_None:
  "b \<in> set (enriched net B) \<Longrightarrow> series b = None \<Longrightarrow>
   \<exists>e. loadSeries_response (product net (id' b)) = Inl e"
  by (auto simp: enriched_def enrich_def split: sum.splits if_splits)

section \<open>The results the mapper records in the enrichment pass\<close>

lemma run_seq_results_inv:
  assumes "distinct (map fst order)" and "P s"
    and step: "\<And>x st. P st \<Longrightarrow> P (snd (oper x st))"
    and prog: "\<And>n st. P st \<Longrightarrow> P (onProgress n st)"
    and "run_seq oper onProgress order results finished s = (results1, finished1, s1)"
  shows "\<forall>(i, x) \<in> set order. i < length results \<longrightarrow>
           (\<exists>st. P st \<and> results1 ! i = Some (settle (fst (oper x st))))"
  using assms(1,2,5)
proof (induction order arbitrary: results finished s)
  case Nil
  then show ?case by simp
next
  case (Cons job order)
  obtain r s2 where op: "oper (snd job) s = (r, s2)"
    by (cases "oper (snd job) s")
  from Cons.prems have run:
    "run_seq oper onProgress order (results[fst job := Some (settle r)]) (finished @ [job])
       (onProgress (Suc (length finished)) s2) = (results1, finished1, s1)"
    and dist: "distinct (map fst order)" and fresh: "fst job \<notin> fst ` set order"
    by (simp_all add: op)
  have P2: "P (onProgress (Suc (length finished)) s2)"
    using step [OF Cons.prems(2), of "snd job"] prog by (simp add: op)
  note IH = Cons.IH [OF dist P2 run]
  have keep: "results1 ! fst job = (results[fst job := Some (settle r)]) ! fst job"
    using run_seq_results [OF dist run] fresh by simp
  have here: "\<exists>st. P st \<and> results1 ! fst job = Some (settle (fst (oper (snd job) st)))"
    if "fst job < length results"
    using keep that Cons.prems(2) op by (intro exI [of _ s]) simp
  have later: "\<exists>st. P st \<and> results1 ! i = Some (settle (fst (oper x st)))"
    if "(i, x) \<in> set order" "i < length results" for i x
    using IH that by fastforce
  show ?case
    using here later by (cases job) auto
qed

lemma parallelMap_inv:
  assumes limit: "1 \<le> limit" and "P s"
    and step: "\<And>x st. P st \<Longrightarrow> P (snd (oper x st))"
    and prog: "\<And>n st. P st \<Longrightarrow> P (onProgress n st)"
  shows "\<exists>rs s'. parallelMap inputs oper limit onProgress sched s = Some (rs, s')
     \<and> length rs = length inputs
     \<and> (\<forall>i<length inputs. \<exists>st. P st \<and> rs ! i = settle (fst (oper (inputs ! i) st)))"
proof -
  from parallelMap_seq [OF limit, where inputs = inputs and oper = oper and onProgress = onProgress
      and sched = sched and s = s]
  obtain order rs s' where order: "mset order = mset (zip [0..<length inputs] inputs)"
    and seq: "run_seq oper onProgress order (replicate (length inputs) None) [] s =
              (map Some rs, order, s')"
    and par: "parallelMap inputs oper limit onProgress sched s = Some (rs, s')"
    and len: "length rs = length inputs"
    by blast
  have "mset (map fst order) = mset (map fst (zip [0..<length inputs] inputs))"
    using order by (metis mset_map)
  then have dist: "distinct (map fst order)"
    by (metis distinct_upt mset_eq_imp_distinct_iff map_fst_zip length_upt diff_zero)
  have sets: "set order = set (zip [0..<length inputs] inputs)"
    using order by (rule mset_eq_setD)
  note facts = run_seq_results_inv [of order P s oper onProgress, OF dist assms(2) step prog seq]
  have "\<exists>st. P st \<and> rs ! i = settle (fst (oper (inputs ! i) st))" if "i < length inputs" for i
  proof -
    have "(i, inputs ! i) \<in> set order"
      using that unfolding sets by (auto simp: set_zip intro!: exI [of _ i])
    with facts that obtain st where "P st" "map Some rs ! i = Some (settle (fst (oper (inputs ! i) st)))"
      by fastforce
    then show ?thesis
      using that len by auto
  qed
  with par len show ?thesis by blast
qed

lemma loadBookSeries_result:
  "fst (loadBookSeries net i st) =
     (case loadSeries_response (product net (id' (books st ! i))) of
        Inl e \<Rightarrow> Inl e | Inr v \<Rightarrow> Inr ())"
  by (simp add: loadBookSeries_def loadSeries_def split: sum.splits)

lemma map_update_same: "(map f xs)[i := f (xs ! i)] = map f xs"
  by (simp add: map_update [symmetric])

lemma loadBookSeries_ids:
  "map id' (books (snd (loadBookSeries net i st))) = map id' (books st)"
  by (simp add: loadBookSeries_def loadSeries_def saveBooks_def map_update map_update_same
        split: sum.splits)

lemma enrichment_results:
  assumes limit: "1 \<le> limit"
    and items: "\<forall>i\<in>set items. i < length (books st)"
  shows "\<exists>rs st'. parallelMap items (loadBookSeries net) limit
               (\<lambda>done s. s\<lparr>loadingMessage := Some (progress series_loading (Num (int done)) cnt)\<rparr>)
               sched st = Some (rs, st')
     \<and> length rs = length items
     \<and> (\<forall>k<length items.
           rs ! k = (case loadSeries_response (product net (id' (books st ! (items ! k)))) of
                       Inl e \<Rightarrow> Failure e | Inr v \<Rightarrow> Success ()))"
proof -
  let ?P = "\<lambda>st1. map id' (books st1) = map id' (books st)"
  let ?onP = "\<lambda>done s. s\<lparr>loadingMessage := Some (progress series_loading (Num (int done)) cnt)\<rparr>"
  have step: "?P (snd (loadBookSeries net x st1))" if "?P st1" for x st1
    using that by (simp add: loadBookSeries_ids)
  have prog: "?P (?onP n st1)" if "?P st1" for n and st1 :: browser
    using that by simp
  from parallelMap_inv [of limit ?P st "loadBookSeries net" ?onP items sched, OF limit refl step prog]
  obtain rs st' where par: "parallelMap items (loadBookSeries net) limit ?onP sched st = Some (rs, st')"
    and len: "length rs = length items"
    and at: "\<forall>k<length items. \<exists>st1. ?P st1 \<and> rs ! k = settle (fst (loadBookSeries net (items ! k) st1))"
    by blast
  have "rs ! k = (case loadSeries_response (product net (id' (books st ! (items ! k)))) of
                       Inl e \<Rightarrow> Failure e | Inr v \<Rightarrow> Success ())" if "k < length items" for k
  proof -
    from at that obtain st1 where P: "?P st1"
      and r: "rs ! k = settle (fst (loadBookSeries net (items ! k) st1))"
      by blast
    have i: "items ! k < length (books st)"
      using items that by simp
    have "length (books st1) = length (books st)"
      using P by (metis length_map)
    with P i have "id' (books st1 ! (items ! k)) = id' (books st ! (items ! k))"
      by (metis nth_map)
    then show ?thesis
      unfolding r loadBookSeries_result by (simp split: sum.splits)
  qed
  with par len show ?thesis by blast
qed


lemma reload_success_pass:
  assumes page1: "available_book_list net 1 = ListHtml d" "order_book d = Some bs"
    "bw_pagination d = Some pc"
    and ok: "\<forall>p\<in>set (pagesNeedLoad pc). page_rows net p \<noteq> None"
  shows "\<exists>order B items s6 rs s7 order2.
       mset order = mset (pagesNeedLoad pc)
     \<and> B = map (mergeBook (books s)) bs @ concat (map (page_records net (books s)) order)
     \<and> items = filter (\<lambda>i. series (B ! i) = None) [0..<length B]
     \<and> books s6 = B
     \<and> requests s6 = requests s @ GetList 1 # map GetList order
     \<and> parallelMap items (loadBookSeries net) 5
          (\<lambda>done s. s\<lparr>loadingMessage :=
               Some (progress series_loading (Num (int done)) (Num (int (length items))))\<rparr>)
          sched2 s6 = Some (rs, s7)
     \<and> length rs = length items
     \<and> (\<forall>k<length items.
           rs ! k = (case loadSeries_response (product net (id' (B ! (items ! k)))) of
                       Inl e \<Rightarrow> Failure e | Inr v \<Rightarrow> Success ()))
     \<and> mset order2 = mset items
     \<and> requests s7 = requests s6 @ map (\<lambda>i. GetProduct (id' (B ! i))) order2
     \<and> books s7 = enriched net B
     \<and> localStorage_books s7 = Some (enriched net B)
     \<and> reloadCollection net sched1 sched2 s =
         Some (Inr (), s7\<lparr>loading := False, loadingMessage := None\<rparr>)"
proof -
  define s5 where "s5 = s\<lparr>loading := True, requests := requests s @ [GetList 1],
                   books := map (mergeBook (books s)) bs,
                   localStorage_books := Some (map (mergeBook (books s)) bs),
                   loadingMessage := Some (progress books_loading (Num 1) pc)\<rparr>"
  have inv: "localStorage_books s5 = Some (books s5)"
    by (simp add: s5_def)
  from listing_stage [OF inv, of 5 "pagesNeedLoad pc" net "books s" pc sched1]
  obtain order rs1 s6 where order: "mset order = mset (pagesNeedLoad pc)"
    and none: "\<not> list_ex (\<lambda>error. error \<noteq> Success None) rs1"
    and s6: "s6 = s5\<lparr>books := books s5 @ concat (map (page_records net (books s)) order),
           localStorage_books := Some (books s5 @ concat (map (page_records net (books s)) order)),
           requests := requests s5 @ map GetList order,
           loadingMessage :=
             (if pagesNeedLoad pc = [] then loadingMessage s5
              else Some (progress books_loading (Num (int (length (pagesNeedLoad pc)) + 1)) pc))\<rparr>"
    and par: "parallelMap (pagesNeedLoad pc) (loadPage net (books s)) 5
         (\<lambda>done s. s\<lparr>loadingMessage := Some (progress books_loading (Num (int done + 1)) pc)\<rparr>)
         sched1 s5 = Some (rs1, s6)"
    using ok by auto
  define B where "B = map (mergeBook (books s)) bs @ concat (map (page_records net (books s)) order)"
  have books6: "books s6 = B"
    by (simp add: s6 s5_def B_def)
  have requests6: "requests s6 = requests s @ GetList 1 # map GetList order"
    by (simp add: s6 s5_def)
  have inv6: "localStorage_books s6 = Some (books s6)"
    by (simp add: s6)
  define items where "items = filter (\<lambda>i. series (books s6 ! i) = None) [0..<length (books s6)]"
  have bound: "\<forall>i\<in>set items. i < length (books s6)"
    by (simp add: items_def)
  from enrichment_stage [OF inv6, of 5 net "Num (int (length items))" sched2, folded items_def]
  obtain order2 rs2 s7 where order2: "mset order2 = mset items"
    and s7: "s7 = s6\<lparr>books := enriched net (books s6),
           localStorage_books := Some (enriched net (books s6)),
           requests := requests s6 @ map (\<lambda>i. GetProduct (id' (books s6 ! i))) order2,
           loadingMessage :=
             (if items = [] then loadingMessage s6
              else Some (progress series_loading (Num (int (length items))) (Num (int (length items)))))\<rparr>"
    and par2: "parallelMap items (loadBookSeries net) 5
         (\<lambda>done s. s\<lparr>loadingMessage :=
              Some (progress series_loading (Num (int done)) (Num (int (length items))))\<rparr>)
         sched2 s6 = Some (rs2, s7)"
    by auto
  from enrichment_results [OF _ bound, of 5 net "Num (int (length items))" sched2]
  obtain rs' st' where par': "parallelMap items (loadBookSeries net) 5
         (\<lambda>done s. s\<lparr>loadingMessage :=
              Some (progress series_loading (Num (int done)) (Num (int (length items))))\<rparr>)
         sched2 s6 = Some (rs', st')"
    and len': "length rs' = length items"
    and at': "\<forall>k<length items.
           rs' ! k = (case loadSeries_response (product net (id' (books s6 ! (items ! k)))) of
                       Inl e \<Rightarrow> Failure e | Inr v \<Rightarrow> Success ())"
    by auto
  have same: "rs' = rs2"
    using par' par2 by simp
  have len: "length rs2 = length items"
    using len' same by simp
  have rs2: "\<forall>k<length items.
           rs2 ! k = (case loadSeries_response (product net (id' (B ! (items ! k)))) of
                       Inl e \<Rightarrow> Failure e | Inr v \<Rightarrow> Success ())"
    using at' same books6 by simp
  have run: "reloadCollection net sched1 sched2 s =
         Some (Inr (), s7\<lparr>loading := False, loadingMessage := None\<rparr>)"
    unfolding reload_unfold [OF page1] s5_def [symmetric] par
    using none
    by (simp only: option.case prod.case if_False items_def [symmetric] par2)
  have s7_facts: "requests s7 = requests s6 @ map (\<lambda>i. GetProduct (id' (B ! i))) order2"
    "books s7 = enriched net B" "localStorage_books s7 = Some (enriched net B)"
    by (simp_all add: s7 books6)
  have items_B: "items = filter (\<lambda>i. series (B ! i) = None) [0..<length B]"
    by (simp add: items_def books6)
  show ?thesis
    apply (rule exI [of _ order], rule exI [of _ B], rule exI [of _ items], rule exI [of _ s6],
           rule exI [of _ rs2], rule exI [of _ s7], rule exI [of _ order2])
    using order B_def items_B books6 requests6 par2 len rs2 order2 s7_facts run
    apply (intro conjI)
                apply assumption+
    done
qed

section \<open>Properties\<close>

text \<open>
  C1. The claim: when the fetch of listing page 1 reports \<^verbatim>\<open>NO_LOGIN\<close>, the run ends as
  failed with the not-logged-in message and \<^verbatim>\<open>state.books\<close> is what it was before the
  run. The run does end so, but \<^verbatim>\<open>state.books\<close> is empty after it: a browser that
  held one book holds none.
\<close>

theorem reload_no_login_counterexample:
  "\<exists>s'. reloadCollection net_no_login [] [] (idle [book_A]) = Some (Inr (), s')
        \<and> loadingMessage s' = Some \<lparr>msg = msg_no_login, error = Some True\<rparr>
        \<and> books s' \<noteq> books (idle [book_A])"
proof -
  have "reloadCollection net_no_login [] [] (idle [book_A]) =
        Some (Inr (), (idle [book_A])\<lparr>books := [], loading := True,
          loadingMessage := Some \<lparr>msg = msg_no_login, error = Some True\<rparr>,
          requests := requests (idle [book_A]) @ [GetList 1]\<rparr>)"
    using reload_page1_error [of net_no_login "\<lparr>doc = None, books' = None, error' = Some NO_LOGIN\<rparr>" NO_LOGIN]
    by (simp add: net_no_login_def loadAvailableBookList_response_def)
  then show ?thesis
    by (simp add: idle_def)
qed

text \<open>
  C1, as the code has it: when the fetch of listing page 1 reports \<^verbatim>\<open>NO_LOGIN\<close>, the run
  ends as failed with the not-logged-in message, the flag \<^verbatim>\<open>loading\<close> still set;
  \<^verbatim>\<open>state.books\<close> is empty, and the collection stored in \<^verbatim>\<open>localStorage\<close> is what it
  was before the run. Only page 1 was requested.
\<close>

theorem reload_no_login:
  assumes "loadAvailableBookList_response (available_book_list net 1) = Inr res"
    and "error' res = Some NO_LOGIN"
  shows "\<exists>s'. reloadCollection net sched1 sched2 s = Some (Inr (), s')
     \<and> s' = s\<lparr>books := [], loading := True,
              loadingMessage := Some \<lparr>msg = msg_no_login, error = Some True\<rparr>,
              requests := requests s @ [GetList 1]\<rparr>
     \<and> books s' = [] \<and> localStorage_books s' = localStorage_books s"
  using reload_page1_error [OF assms] by simp

theorem reload_no_login_witness:
  "loadAvailableBookList_response (available_book_list net_no_login 1) =
     Inr \<lparr>doc = None, books' = None, error' = Some NO_LOGIN\<rparr>
   \<and> (\<exists>s'. reloadCollection net_no_login [] [] (idle [book_A]) = Some (Inr (), s')
        \<and> loading s' \<and> loadingMessage s' = Some \<lparr>msg = msg_no_login, error = Some True\<rparr>
        \<and> books s' = [] \<and> localStorage_books s' = Some [book_A])"
  using reload_no_login [of net_no_login "\<lparr>doc = None, books' = None, error' = Some NO_LOGIN\<rparr>"
      "[]" "[]" "idle [book_A]"]
  by (simp add: net_no_login_def loadAvailableBookList_response_def idle_def)

text \<open>
  C3. \<^verbatim>\<open>recordBookList\<close> appends the merge of every row to \<^verbatim>\<open>state.books\<close>. The
  merged book has the id and the name of the row; when no previous book has the row's id
  its series is \<^verbatim>\<open>null\<close> and its two flags are false; otherwise its series and its
  flags are those of the first previous book with the row's id.
\<close>

theorem recordBookList_merge:
  "books (recordBookList originBooks bs s) = books s @ map (mergeBook originBooks) bs
   \<and> id' (mergeBook originBooks b) = id' b
   \<and> name (mergeBook originBooks b) = name b
   \<and> ((\<forall>old\<in>set originBooks. \<not> strict_eq (id' old) (id' b)) \<longrightarrow>
         series (mergeBook originBooks b) = None
       \<and> favorite (mergeBook originBooks b) = False
       \<and> bookmark (mergeBook originBooks b) = False)
   \<and> (\<forall>pre old post.
         originBooks = pre @ old # post
       \<and> (\<forall>x\<in>set pre. \<not> strict_eq (id' x) (id' b))
       \<and> strict_eq (id' old) (id' b) \<longrightarrow>
         series (mergeBook originBooks b) = series old
       \<and> favorite (mergeBook originBooks b) = favorite old
       \<and> bookmark (mergeBook originBooks b) = bookmark old)"
proof -
  have none: "find (\<lambda>old. strict_eq (id' old) (id' b)) originBooks = None"
    if "\<forall>old\<in>set originBooks. \<not> strict_eq (id' old) (id' b)"
    using that by (simp add: find_None_iff)
  have first: "find (\<lambda>old. strict_eq (id' old) (id' b)) originBooks = Some old"
    if "originBooks = pre @ old # post" "\<forall>x\<in>set pre. \<not> strict_eq (id' x) (id' b)"
       "strict_eq (id' old) (id' b)" for pre old post
    using that by (simp add: find_first)
  show ?thesis
    using none first
    by (auto simp: recordBookList_def saveBooks_def mergeBook_def Let_def)
qed

theorem recordBookList_merge_witness:
  "books (recordBookList [book_A] [row_A] (idle [])) =
     [\<lparr>id' = Num 7, name = [66], series = Some [83], favorite = True, bookmark = False\<rparr>]
   \<and> favorite (mergeBook [book_A] row_A) = True
   \<and> name (mergeBook [book_A] row_A) = [66] \<and> name book_A = [65]
   \<and> series (mergeBook [book_A] row_B) = None
   \<and> favorite (mergeBook [book_A] row_B) = False"
  using recordBookList_merge [of "[book_A]" "[row_A]" "idle []" row_A]
        recordBookList_merge [of "[book_A]" "[row_A]" "idle []" row_B]
  by (simp add: book_A_def row_A_def row_B_def idle_def mergeBook_def)


text \<open>
  C4. The claim: after a run no id that is absent from the fetched listing is in the
  collection, and every id is in it at most once, also when the listing repeats an id. A
  first page that lists id 8 twice leaves two books with id 8.
\<close>

theorem reload_duplicate_ids_counterexample:
  "\<exists>s'. reloadCollection net_duplicate [] [] (idle []) = Some (Inr (), s')
        \<and> map id' (books s') = [Num 8, Num 8]
        \<and> \<not> distinct (map id' (books s'))"
proof -
  have ok: "\<forall>p\<in>set (pagesNeedLoad (Num 1)). page_rows net_duplicate p \<noteq> None"
    by simp
  have page1: "available_book_list net_duplicate 1 =
      ListHtml \<lparr>order_book = Some [row_B, row_B], bw_pagination = Some (Num 1)\<rparr>"
    by (simp add: net_duplicate_def page_def)
  from success_run [OF page1 _ _ ok, where bs = "[row_B, row_B]" and ?sched1.0 = "[]"
      and ?sched2.0 = "[]" and s = "idle []"]
  obtain s' where "reloadCollection net_duplicate [] [] (idle []) = Some (Inr (), s')"
    and "books s' = enriched net_duplicate (map (mergeBook (books (idle []))) [row_B, row_B])"
    by auto
  then show ?thesis
    by (auto simp: row_B_def)
qed

text \<open>
  C4, as the code has it: after a run no id that is absent from the fetched listing is in
  the collection; the collection is empty or has the ids of the fetched listing, each as
  often as the listing; so every id is in it at most once when the listing repeats no id.
\<close>

theorem reload_ids:
  "\<exists>r s'. reloadCollection net sched1 sched2 s = Some (r, s')
     \<and> (\<forall>i. i \<notin> id' ` set (listing net) \<longrightarrow> i \<notin> id' ` set (books s'))
     \<and> (distinct (map id' (listing net)) \<longrightarrow> distinct (map id' (books s')))
     \<and> (books s' = [] \<or> mset (map id' (books s')) = mset (map id' (listing net)))"
proof -
  from reload_books_ids [of net sched1 sched2 s]
  obtain r s' where run: "reloadCollection net sched1 sched2 s = Some (r, s')"
    and ids: "books s' = [] \<or> mset (map id' (books s')) = mset (map id' (listing net))"
    by blast
  have "i \<notin> id' ` set (books s')" if "i \<notin> id' ` set (listing net)" for i
  proof (cases "books s' = []")
    case True
    then show ?thesis by simp
  next
    case False
    with ids have "set (map id' (books s')) = set (map id' (listing net))"
      by (metis mset_eq_setD)
    with that show ?thesis by simp
  qed
  moreover have "distinct (map id' (books s'))" if "distinct (map id' (listing net))"
  proof (cases "books s' = []")
    case True
    then show ?thesis by simp
  next
    case False
    with ids that show ?thesis
      by (metis mset_eq_imp_distinct_iff)
  qed
  ultimately show ?thesis
    using run ids by blast
qed

theorem reload_ids_witness:
  "distinct (map id' (listing net_three_pages))
   \<and> Num 2 \<notin> id' ` set (listing net_three_pages)
   \<and> (\<exists>r s'. reloadCollection net_three_pages [1] [] (idle [book_A]) = Some (r, s')
        \<and> Num 2 \<notin> id' ` set (books s')
        \<and> distinct (map id' (books s')))"
proof -
  have l: "listing net_three_pages = [\<lparr>id' = Num 1, name = [65]\<rparr>, \<lparr>id' = Num 3, name = [65]\<rparr>]"
    by (simp add: listing_def listing_pages_def page_rows_def net_three_pages_def page_def)
  show ?thesis
    using reload_ids [of net_three_pages "[1]" "[]" "idle [book_A]"]
    unfolding l by auto
qed

text \<open>
  C5. When a page after the first fails, the run ends as failed with the partial-failure
  message and the flag \<^verbatim>\<open>loading\<close> still set; every page after the first was requested
  once; the collection is the merged rows of page 1 followed by those of the pages that
  succeeded, in the order of their completion, and it is what \<^verbatim>\<open>localStorage\<close> holds.
\<close>

theorem partial_page_failure:
  assumes "available_book_list net 1 = ListHtml d" and "order_book d = Some bs"
    and "bw_pagination d = Some pageCount"
    and "\<exists>p\<in>set (pagesNeedLoad pageCount). page_rows net p = None"
  shows "\<exists>s' order.
       reloadCollection net sched1 sched2 s = Some (Inr (), s')
     \<and> loading s'
     \<and> loadingMessage s' = Some \<lparr>msg = msg_partial_failure, error = Some True\<rparr>
     \<and> mset order = mset (pagesNeedLoad pageCount)
     \<and> requests s' = requests s @ GetList 1 # map GetList order
     \<and> books s' = map (mergeBook (books s)) bs @ concat (map (page_records net (books s)) order)
     \<and> localStorage_books s' = Some (books s')
     \<and> set (map (mergeBook (books s)) bs) \<subseteq> set (books s')
     \<and> (\<forall>p\<in>set (pagesNeedLoad pageCount). \<forall>rows. page_rows net p = Some rows \<longrightarrow>
           set (map (mergeBook (books s)) rows) \<subseteq> set (books s'))"
proof -
  from partial_run [OF assms, where ?sched1.0 = sched1 and ?sched2.0 = sched2 and s = s]
  obtain order s' where order: "mset order = mset (pagesNeedLoad pageCount)"
    and run: "reloadCollection net sched1 sched2 s = Some (Inr (), s')"
    and state: "loading s'"
      "loadingMessage s' = Some \<lparr>msg = msg_partial_failure, error = Some True\<rparr>"
      "localStorage_books s' = Some (books s')"
      "requests s' = requests s @ GetList 1 # map GetList order"
    and books: "books s' = map (mergeBook (books s)) bs @ concat (map (page_records net (books s)) order)"
    by blast
  have first: "set (map (mergeBook (books s)) bs) \<subseteq> set (books s')"
    unfolding books by simp
  have later: "set (map (mergeBook (books s)) rows) \<subseteq> set (books s')"
    if "p \<in> set (pagesNeedLoad pageCount)" "page_rows net p = Some rows" for p rows
  proof -
    have "p \<in> set order"
      using that(1) order by (metis mset_eq_setD)
    then show ?thesis
      unfolding books using that(2) by (auto simp: page_records_def)
  qed
  show ?thesis
    using order run state books first later by blast
qed

theorem partial_page_failure_witness:
  "(\<exists>p\<in>set (pagesNeedLoad (Num 3)). page_rows net_three_pages p = None)
   \<and> page_rows net_three_pages 3 = Some [\<lparr>id' = Num 3, name = [65]\<rparr>]
   \<and> (\<exists>s'. reloadCollection net_three_pages [1] [] (idle [book_A]) = Some (Inr (), s')
        \<and> loading s'
        \<and> loadingMessage s' = Some \<lparr>msg = msg_partial_failure, error = Some True\<rparr>
        \<and> mergeBook [book_A] \<lparr>id' = Num 1, name = [65]\<rparr> \<in> set (books s')
        \<and> mergeBook [book_A] \<lparr>id' = Num 3, name = [65]\<rparr> \<in> set (books s')
        \<and> localStorage_books s' = Some (books s'))"
proof -
  have failed: "\<exists>p\<in>set (pagesNeedLoad (Num 3)). page_rows net_three_pages p = None"
    by (simp add: page_rows_def net_three_pages_def)
  have rows3: "page_rows net_three_pages 3 = Some [\<lparr>id' = Num 3, name = [65]\<rparr>]"
    by (simp add: page_rows_def net_three_pages_def page_def)
  from partial_page_failure [OF _ _ _ failed, where
      d = "\<lparr>order_book = Some [\<lparr>id' = Num 1, name = [65]\<rparr>], bw_pagination = Some (Num 3)\<rparr>"
      and bs = "[\<lparr>id' = Num 1, name = [65]\<rparr>]" and ?sched1.0 = "[1]" and ?sched2.0 = "[]"
      and s = "idle [book_A]"]
  obtain s' where "reloadCollection net_three_pages [1] [] (idle [book_A]) = Some (Inr (), s')"
    "loading s'" "loadingMessage s' = Some \<lparr>msg = msg_partial_failure, error = Some True\<rparr>"
    "localStorage_books s' = Some (books s')"
    "set (map (mergeBook (books (idle [book_A]))) [\<lparr>id' = Num 1, name = [65]\<rparr>]) \<subseteq> set (books s')"
    "\<forall>p\<in>set (pagesNeedLoad (Num 3)). \<forall>rows. page_rows net_three_pages p = Some rows \<longrightarrow>
           set (map (mergeBook (books (idle [book_A]))) rows) \<subseteq> set (books s')"
    by (auto simp: net_three_pages_def page_def)
  then show ?thesis
    using failed rows3 by (auto simp: idle_def)
qed

text \<open>
  C2. For every list of inputs, every operation, every limit of at least 1 and every
  schedule, \<^verbatim>\<open>parallelMap\<close> resolves to a list with one result for each input, at the
  position of the input: the outcome of the operation on that input, a failure where the
  operation throws or rejects. Every input is completed exactly once, whichever of them
  fail; when the outcome of the operation does not depend on the state, the list is the
  same for every schedule.
\<close>

theorem parallelMap_ordered_complete:
  assumes "1 \<le> limit"
  shows "\<exists>rs s' finished.
       parallelMap inputs oper limit onProgress sched s = Some (rs, s')
     \<and> length rs = length inputs
     \<and> (\<forall>i<length inputs. \<exists>st. rs ! i = settle (fst (oper (inputs ! i) st)))
     \<and> (\<forall>i<length inputs. \<forall>e. (\<forall>st. fst (oper (inputs ! i) st) = Inl e) \<longrightarrow> rs ! i = Failure e)
     \<and> (\<forall>f. (\<forall>x st. fst (oper x st) = f x) \<longrightarrow> rs = map (\<lambda>x. settle (f x)) inputs)
     \<and> run_pool oper onProgress sched (drop limit (zip [0..<length inputs] inputs))
          (take limit (zip [0..<length inputs] inputs)) (replicate (length inputs) None) [] s =
        (map Some rs, finished, s')
     \<and> mset finished = mset (zip [0..<length inputs] inputs)"
proof -
  from parallelMap_seq [OF assms, where inputs = inputs and oper = oper and onProgress = onProgress
      and sched = sched and s = s]
  obtain order rs s' where order: "mset order = mset (zip [0..<length inputs] inputs)"
    and pool: "run_pool oper onProgress sched (drop limit (zip [0..<length inputs] inputs))
          (take limit (zip [0..<length inputs] inputs)) (replicate (length inputs) None) [] s =
        (map Some rs, order, s')"
    and par: "parallelMap inputs oper limit onProgress sched s = Some (rs, s')"
    and len: "length rs = length inputs"
    and at: "\<forall>i<length inputs. \<exists>st. rs ! i = settle (fst (oper (inputs ! i) st))"
    by blast
  have failure: "rs ! i = Failure e"
    if "i < length inputs" "\<forall>st. fst (oper (inputs ! i) st) = Inl e" for i e
    using at that by fastforce
  have pure: "rs = map (\<lambda>x. settle (f x)) inputs" if "\<forall>x st. fst (oper x st) = f x" for f
    using at that len by (intro nth_equalityI) auto
  show ?thesis
    using order pool par len at failure pure by blast
qed

theorem parallelMap_ordered_complete_witness:
  "(1::nat) \<le> 2
   \<and> (\<exists>rs s'. parallelMap [10, 20, 30 :: nat]
                 (\<lambda>x s. (if x = 20 then Inl HTTPError else Inr (x + 1), s @ [x])) 2
                 (\<lambda>n s. s) [1, 0, 0] [] = Some (rs, s')
        \<and> rs = [Success 11, Failure HTTPError, Success 31])"
  using parallelMap_ordered_complete [of 2 "[10, 20, 30 :: nat]"
      "\<lambda>x s. (if x = 20 then Inl HTTPError else Inr (x + 1), s @ [x])" "\<lambda>n s. s" "[1, 0, 0]" "[]"]
  by auto

text \<open>
  C6. The claim: a fatal condition that \<^verbatim>\<open>loadSeries\<close> raises for a book is captured by
  the operation of the enrichment pass on that book. The operation has no \<^verbatim>\<open>try\<close>: for
  a book whose product page lacks the breadcrumb, \<^verbatim>\<open>loadSeries\<close> throws a
  \<^verbatim>\<open>TypeError\<close> and the operation is rejected with it.
\<close>

theorem enrichment_operation_rejects_counterexample:
  "fst (loadSeries net_two_pages (id' (mergeBook [] row_B)) (idle [mergeBook [] row_B])) = Inl TypeError
   \<and> loadBookSeries net_two_pages 0 (idle [mergeBook [] row_B]) =
       (Inl TypeError, (idle [mergeBook [] row_B])\<lparr>requests := [GetProduct (Num 8)]\<rparr>)"
  by (simp add: loadBookSeries_def loadSeries_def loadSeries_response_def net_two_pages_def
        idle_def row_B_def mergeBook_def)

text \<open>
  C6, as the code has it: when \<^verbatim>\<open>loadSeries\<close> throws for a book, the operation on that
  book is rejected with what was thrown and writes nothing. In a run whose listing pages
  all succeed, the mapper resolves the enrichment pass with one result for every book
  without a series, a failure exactly for the books for which \<^verbatim>\<open>loadSeries\<close> throws;
  the product page of every such book is requested once, whichever of them fail, and every
  series that was loaded is written and stored; the run resolves with what the pass left,
  \<^verbatim>\<open>loading\<close> cleared and the message absent.
\<close>

theorem enrichment_pass_completes:
  assumes "available_book_list net 1 = ListHtml d" and "order_book d = Some bs"
    and "bw_pagination d = Some pageCount"
    and "\<forall>p\<in>set (pagesNeedLoad pageCount). page_rows net p \<noteq> None"
  shows "(\<forall>i st e. loadSeries_response (product net (id' (books st ! i))) = Inl e \<longrightarrow>
            loadBookSeries net i st =
              (Inl e, st\<lparr>requests := requests st @ [GetProduct (id' (books st ! i))]\<rparr>))
       \<and> (\<exists>order B items s6 rs s7 order2.
             mset order = mset (pagesNeedLoad pageCount)
           \<and> B = map (mergeBook (books s)) bs @ concat (map (page_records net (books s)) order)
           \<and> items = filter (\<lambda>i. series (B ! i) = None) [0..<length B]
           \<and> books s6 = B
           \<and> requests s6 = requests s @ GetList 1 # map GetList order
           \<and> parallelMap items (loadBookSeries net) 5
                (\<lambda>done s. s\<lparr>loadingMessage :=
                     Some (progress series_loading (Num (int done)) (Num (int (length items))))\<rparr>)
                sched2 s6 = Some (rs, s7)
           \<and> length rs = length items
           \<and> (\<forall>k<length items.
                 rs ! k = (case loadSeries_response (product net (id' (B ! (items ! k)))) of
                             Inl e \<Rightarrow> Failure e | Inr v \<Rightarrow> Success ()))
           \<and> mset order2 = mset items
           \<and> requests s7 = requests s6 @ map (\<lambda>i. GetProduct (id' (B ! i))) order2
           \<and> books s7 = enriched net B
           \<and> localStorage_books s7 = Some (enriched net B)
           \<and> reloadCollection net sched1 sched2 s =
               Some (Inr (), s7\<lparr>loading := False, loadingMessage := None\<rparr>))"
proof -
  have item: "loadBookSeries net i st =
              (Inl e, st\<lparr>requests := requests st @ [GetProduct (id' (books st ! i))]\<rparr>)"
    if "loadSeries_response (product net (id' (books st ! i))) = Inl e" for i st e
    using that by (simp add: loadBookSeries_def loadSeries_def)
  from item reload_success_pass [OF assms, where ?sched1.0 = sched1 and ?sched2.0 = sched2 and s = s]
  show ?thesis
    by (intro conjI allI impI) assumption+
qed

theorem enrichment_pass_completes_witness:
  "pagesNeedLoad (Num 2) = [2]
   \<and> page_rows net_two_pages 2 = Some [row_B]
   \<and> loadSeries_response (product net_two_pages (Num 8)) = Inl TypeError
   \<and> (\<exists>s6 rs s7.
         parallelMap [1] (loadBookSeries net_two_pages) 5
           (\<lambda>done s. s\<lparr>loadingMessage :=
                Some (progress series_loading (Num (int done)) (Num 1))\<rparr>)
           [] s6 = Some (rs, s7)
       \<and> rs = [Failure TypeError]
       \<and> requests s7 = [GetList 1, GetList 2, GetProduct (Num 8)]
       \<and> books s7 = [mergeBook [book_A] row_A, mergeBook [book_A] row_B]
       \<and> reloadCollection net_two_pages [] [] (idle [book_A]) =
           Some (Inr (), s7\<lparr>loading := False, loadingMessage := None\<rparr>))"
proof -
  have rows2: "page_rows net_two_pages 2 = Some [row_B]"
    by (simp add: page_rows_def net_two_pages_def page_def)
  then have ok: "\<forall>p\<in>set (pagesNeedLoad (Num 2)). page_rows net_two_pages p \<noteq> None"
    by simp
  have page1: "available_book_list net_two_pages 1 =
      ListHtml \<lparr>order_book = Some [row_A], bw_pagination = Some (Num 2)\<rparr>"
    by (simp add: net_two_pages_def page_def)
  have fails: "loadSeries_response (product net_two_pages i) = Inl TypeError" for i
    by (simp add: net_two_pages_def loadSeries_response_def)
  define B where "B = [mergeBook [book_A] row_A, mergeBook [book_A] row_B]"
  have items: "filter (\<lambda>i. series (B ! i) = None) [0..<length B] = [1]"
    by (simp add: B_def mergeBook_def book_A_def row_A_def row_B_def)
  have e: "enrich net_two_pages b = b" for b
    by (simp add: enrich_def fails)
  have same: "enriched net_two_pages B = B"
    unfolding enriched_def by (rule map_idI) (simp add: e)
  have ids: "id' (B ! 1) = Num 8"
    by (simp add: B_def row_B_def)
  have rows1: "order_book \<lparr>order_book = Some [row_A], bw_pagination = Some (Num 2)\<rparr> = Some [row_A]"
    and count: "bw_pagination \<lparr>order_book = Some [row_A], bw_pagination = Some (Num 2)\<rparr> = Some (Num 2)"
    by simp_all
  from enrichment_pass_completes [OF page1 rows1 count ok, where ?sched1.0 = "[]"
      and ?sched2.0 = "[]" and s = "idle [book_A]", THEN conjunct2]
  obtain order B' items' s6 rs s7 order2 where all:
      "mset order = mset (pagesNeedLoad (Num 2))
     \<and> B' = map (mergeBook (books (idle [book_A]))) [row_A]
                  @ concat (map (page_records net_two_pages (books (idle [book_A]))) order)
     \<and> items' = filter (\<lambda>i. series (B' ! i) = None) [0..<length B']
     \<and> books s6 = B'
     \<and> requests s6 = requests (idle [book_A]) @ GetList 1 # map GetList order
     \<and> parallelMap items' (loadBookSeries net_two_pages) 5
                (\<lambda>done s. s\<lparr>loadingMessage :=
                     Some (progress series_loading (Num (int done)) (Num (int (length items'))))\<rparr>)
                [] s6 = Some (rs, s7)
     \<and> length rs = length items'
     \<and> (\<forall>k<length items'.
                 rs ! k = (case loadSeries_response (product net_two_pages (id' (B' ! (items' ! k)))) of
                             Inl e \<Rightarrow> Failure e | Inr v \<Rightarrow> Success ()))
     \<and> mset order2 = mset items'
     \<and> requests s7 = requests s6 @ map (\<lambda>i. GetProduct (id' (B' ! i))) order2
     \<and> books s7 = enriched net_two_pages B'
     \<and> localStorage_books s7 = Some (enriched net_two_pages B')
     \<and> reloadCollection net_two_pages [] [] (idle [book_A]) =
               Some (Inr (), s7\<lparr>loading := False, loadingMessage := None\<rparr>)"
    by (elim exE) (rule that)
  from all have order: "mset order = mset (pagesNeedLoad (Num 2))"
    and B': "B' = map (mergeBook (books (idle [book_A]))) [row_A]
                  @ concat (map (page_records net_two_pages (books (idle [book_A]))) order)"
    and items': "items' = filter (\<lambda>i. series (B' ! i) = None) [0..<length B']"
    and requests6: "requests s6 = requests (idle [book_A]) @ GetList 1 # map GetList order"
    and par: "parallelMap items' (loadBookSeries net_two_pages) 5
                (\<lambda>done s. s\<lparr>loadingMessage :=
                     Some (progress series_loading (Num (int done)) (Num (int (length items'))))\<rparr>)
                [] s6 = Some (rs, s7)"
    and len: "length rs = length items'"
    and at: "\<forall>k<length items'.
                 rs ! k = (case loadSeries_response (product net_two_pages (id' (B' ! (items' ! k)))) of
                             Inl e \<Rightarrow> Failure e | Inr v \<Rightarrow> Success ())"
    and order2: "mset order2 = mset items'"
    and requests7: "requests s7 = requests s6 @ map (\<lambda>i. GetProduct (id' (B' ! i))) order2"
    and books7: "books s7 = enriched net_two_pages B'"
    and run: "reloadCollection net_two_pages [] [] (idle [book_A]) =
               Some (Inr (), s7\<lparr>loading := False, loadingMessage := None\<rparr>)"
    by blast+
  have "order = [2]"
    using order by simp
  then have B_eq: "B' = B"
    using B' rows2 by (simp add: B_def page_records_def idle_def)
  then have items_eq: "items' = [1]"
    using items' items by simp
  then have "order2 = [1]"
    using order2 by simp
  have "rs ! 0 = Failure TypeError"
    using at items_eq by (simp add: fails)
  then have rs: "rs = [Failure TypeError]"
    using len items_eq by (cases rs) auto
  have "requests s7 = [GetList 1, GetList 2, GetProduct (Num 8)]"
    unfolding requests7 requests6 \<open>order = [2]\<close> \<open>order2 = [1]\<close> B_eq
    using ids by (simp add: idle_def)
  moreover have "books s7 = [mergeBook [book_A] row_A, mergeBook [book_A] row_B]"
    unfolding books7 B_eq same by (simp add: B_def)
  moreover have "parallelMap [1] (loadBookSeries net_two_pages) 5
           (\<lambda>done s. s\<lparr>loadingMessage :=
                Some (progress series_loading (Num (int done)) (Num 1))\<rparr>)
           [] s6 = Some (rs, s7)"
    using par unfolding items_eq by simp
  ultimately show ?thesis
    using rows2 fails rs run by (intro conjI exI [of _ s6] exI [of _ rs] exI [of _ s7]) simp_all
qed

text \<open>
  C7. The claim: when page 1 is delivered without the structure expected of it, the
  pagination included, the run ends as failed with the message of a page that cannot be
  parsed. For a page 1 that has its rows but no pagination, \<^verbatim>\<open>parsePageCount\<close> throws
  outside every \<^verbatim>\<open>try\<close>: the run is rejected with the \<^verbatim>\<open>TypeError\<close>, no message is
  set, \<^verbatim>\<open>loading\<close> stays set and the collection stays empty.
\<close>

theorem reload_pagination_missing:
  "\<exists>s'. reloadCollection net_no_pagination [] [] (idle [book_A]) = Some (Inl TypeError, s')
        \<and> loading s' \<and> loadingMessage s' = None \<and> books s' = [] \<and> requests s' = [GetList 1]"
proof -
  have "available_book_list net_no_pagination 1 \<noteq> ListFailed"
    and "\<exists>d bs. available_book_list net_no_pagination 1 = ListHtml d \<and> order_book d = Some bs
            \<and> bw_pagination d = None"
    by (simp_all add: net_no_pagination_def)
  then show ?thesis
    using reload_page1_rejected [of net_no_pagination "[]" "[]" "idle [book_A]"]
    by (simp add: idle_def)
qed

text \<open>
  C8. The claim: after a run that ends with \<^verbatim>\<open>loading\<close> cleared and the message
  absent, every book of the collection has a series other than \<^verbatim>\<open>null\<close>. When the
  product page of a new book lacks the breadcrumb, the run ends so and the book has no
  series.
\<close>

theorem success_without_series_counterexample:
  "\<exists>s'. reloadCollection net_series_fails [] [] (idle [book_A]) = Some (Inr (), s')
        \<and> \<not> loading s' \<and> loadingMessage s' = None
        \<and> (\<exists>b\<in>set (books s'). series b = None)"
proof -
  have ok: "\<forall>p\<in>set (pagesNeedLoad (Num 1)). page_rows net_series_fails p \<noteq> None"
    by simp
  have page1: "available_book_list net_series_fails 1 =
      ListHtml \<lparr>order_book = Some [row_A, row_B], bw_pagination = Some (Num 1)\<rparr>"
    by (simp add: net_series_fails_def page_def)
  from success_run [OF page1 _ _ ok, where bs = "[row_A, row_B]" and ?sched1.0 = "[]"
      and ?sched2.0 = "[]" and s = "idle [book_A]"]
  obtain s' where "reloadCollection net_series_fails [] [] (idle [book_A]) = Some (Inr (), s')"
    and "\<not> loading s'" "loadingMessage s' = None"
    and "books s' = enriched net_series_fails (map (mergeBook (books (idle [book_A]))) [row_A, row_B])"
    by auto
  moreover have "series (enrich net_series_fails (mergeBook [book_A] row_B)) = None"
    by (simp add: enrich_def net_series_fails_def loadSeries_response_def mergeBook_def
          book_A_def row_B_def)
  ultimately show ?thesis
    by (auto simp: enriched_def idle_def mergeBook_def book_A_def row_A_def row_B_def)
qed

text \<open>
  C8, as the code has it: after a run that ends with \<^verbatim>\<open>loading\<close> cleared and the
  message absent, a book of the collection has the series \<^verbatim>\<open>null\<close> only if
  \<^verbatim>\<open>loadSeries\<close> throws for its id.
\<close>

theorem success_series:
  assumes "reloadCollection net sched1 sched2 s = Some (Inr (), s')"
    and "\<not> loading s'" and "loadingMessage s' = None"
  shows "\<forall>b\<in>set (books s'). series b = None \<longrightarrow>
           (\<exists>e. loadSeries_response (product net (id' b)) = Inl e)"
proof (cases rule: reload_cases [of net sched1 sched2 s])
  case (failed r s'')
  with assms show ?thesis by simp
next
  case (partial d bs pc order s'')
  with assms show ?thesis by simp
next
  case (success d bs pc order B s'')
  with assms have "books s' = enriched net B" by simp
  then show ?thesis
    using enriched_None by fastforce
qed

theorem success_series_witness:
  "\<exists>s'. reloadCollection net_series_fails [] [] (idle [book_A]) = Some (Inr (), s')
        \<and> \<not> loading s' \<and> loadingMessage s' = None
        \<and> (\<forall>b\<in>set (books s'). series b = None \<longrightarrow>
             (\<exists>e. loadSeries_response (product net_series_fails (id' b)) = Inl e))"
proof -
  have ok: "\<forall>p\<in>set (pagesNeedLoad (Num 1)). page_rows net_series_fails p \<noteq> None"
    by simp
  have page1: "available_book_list net_series_fails 1 =
      ListHtml \<lparr>order_book = Some [row_A, row_B], bw_pagination = Some (Num 1)\<rparr>"
    by (simp add: net_series_fails_def page_def)
  from success_run [OF page1 _ _ ok, where bs = "[row_A, row_B]" and ?sched1.0 = "[]"
      and ?sched2.0 = "[]" and s = "idle [book_A]"]
  obtain s' where run: "reloadCollection net_series_fails [] [] (idle [book_A]) = Some (Inr (), s')"
    and idle: "\<not> loading s'" "loadingMessage s' = None"
    by auto
  from success_series [OF run idle] run idle show ?thesis by blast
qed

text \<open>
  C9. The claim: when the listing stage fails, the run sets the message of the failure and
  returns, \<^verbatim>\<open>loading\<close> still set. For a page 1 that has its rows but no pagination,
  \<^verbatim>\<open>parsePageCount\<close> throws outside every \<^verbatim>\<open>try\<close>: the run is rejected with the
  \<^verbatim>\<open>TypeError\<close> and sets no message, so that the message a previous run left is still
  there.
\<close>

theorem reload_pagination_missing_keeps_message:
  "\<exists>s'. reloadCollection net_no_pagination [] []
          ((idle [book_A])\<lparr>loading := True,
             loadingMessage := Some \<lparr>msg = msg_partial_failure, error = Some True\<rparr>\<rparr>) =
        Some (Inl TypeError, s')
      \<and> loading s'
      \<and> loadingMessage s' = Some \<lparr>msg = msg_partial_failure, error = Some True\<rparr>
      \<and> loadingMessage s' \<noteq> Some \<lparr>msg = msg_parsing_error, error = Some True\<rparr>
      \<and> requests s' = [GetList 1]"
proof -
  have "available_book_list net_no_pagination 1 \<noteq> ListFailed"
    and "\<exists>d bs. available_book_list net_no_pagination 1 = ListHtml d \<and> order_book d = Some bs
            \<and> bw_pagination d = None"
    by (simp_all add: net_no_pagination_def)
  then show ?thesis
    using reload_page1_rejected [of net_no_pagination "[]" "[]"
        "(idle [book_A])\<lparr>loading := True,
             loadingMessage := Some \<lparr>msg = msg_partial_failure, error = Some True\<rparr>\<rparr>"]
    by (simp add: idle_def msg_partial_failure_def msg_parsing_error_def)
qed

text \<open>
  The outcomes of the run that the code handles. When page 1 reports \<^verbatim>\<open>NO_LOGIN\<close> or
  \<^verbatim>\<open>PARSING_ERROR\<close>, the run resolves with the message of that error, \<^verbatim>\<open>loading\<close>
  still set, and page 1 is the only request it made. When a page after the first fails, it
  resolves with the partial-failure message, \<^verbatim>\<open>loading\<close> still set, and it requested
  listing pages only. When every page succeeds, it requests the product page of every
  book without a series, writes the series, and resolves with \<^verbatim>\<open>loading\<close> cleared and
  the message absent.
\<close>

theorem listing_stage_gates_enrichment:
  "(\<forall>res e. loadAvailableBookList_response (available_book_list net 1) = Inr res
        \<and> error' res = Some e \<longrightarrow>
      reloadCollection net sched1 sched2 s =
        Some (Inr (),
          s\<lparr>books := [], loading := True,
            loadingMessage :=
              Some \<lparr>msg = (case e of NO_LOGIN \<Rightarrow> msg_no_login | PARSING_ERROR \<Rightarrow> msg_parsing_error),
                    error = Some True\<rparr>,
            requests := requests s @ [GetList 1]\<rparr>))
   \<and> (\<forall>d bs pageCount.
        available_book_list net 1 = ListHtml d \<and> order_book d = Some bs
        \<and> bw_pagination d = Some pageCount
        \<and> (\<exists>p\<in>set (pagesNeedLoad pageCount). page_rows net p = None) \<longrightarrow>
        (\<exists>s' order.
            reloadCollection net sched1 sched2 s = Some (Inr (), s')
          \<and> loading s'
          \<and> loadingMessage s' = Some \<lparr>msg = msg_partial_failure, error = Some True\<rparr>
          \<and> mset order = mset (pagesNeedLoad pageCount)
          \<and> requests s' = requests s @ GetList 1 # map GetList order))
   \<and> (\<forall>d bs pageCount.
        available_book_list net 1 = ListHtml d \<and> order_book d = Some bs
        \<and> bw_pagination d = Some pageCount
        \<and> (\<forall>p\<in>set (pagesNeedLoad pageCount). page_rows net p \<noteq> None) \<longrightarrow>
        (\<exists>s' order B order2.
            reloadCollection net sched1 sched2 s = Some (Inr (), s')
          \<and> \<not> loading s'
          \<and> loadingMessage s' = None
          \<and> mset order = mset (pagesNeedLoad pageCount)
          \<and> B = map (mergeBook (books s)) bs @ concat (map (page_records net (books s)) order)
          \<and> mset order2 = mset (filter (\<lambda>i. series (B ! i) = None) [0..<length B])
          \<and> books s' = enriched net B
          \<and> requests s' = requests s @ GetList 1 # map GetList order
                             @ map (\<lambda>i. GetProduct (id' (B ! i))) order2))"
proof (intro conjI allI impI)
  fix res e
  assume "loadAvailableBookList_response (available_book_list net 1) = Inr res \<and> error' res = Some e"
  then show "reloadCollection net sched1 sched2 s =
        Some (Inr (),
          s\<lparr>books := [], loading := True,
            loadingMessage :=
              Some \<lparr>msg = (case e of NO_LOGIN \<Rightarrow> msg_no_login | PARSING_ERROR \<Rightarrow> msg_parsing_error),
                    error = Some True\<rparr>,
            requests := requests s @ [GetList 1]\<rparr>)"
    using reload_page1_error by blast
next
  fix d bs pageCount
  assume "available_book_list net 1 = ListHtml d \<and> order_book d = Some bs
        \<and> bw_pagination d = Some pageCount
        \<and> (\<exists>p\<in>set (pagesNeedLoad pageCount). page_rows net p = None)"
  then have a: "available_book_list net 1 = ListHtml d" "order_book d = Some bs"
    "bw_pagination d = Some pageCount" "\<exists>p\<in>set (pagesNeedLoad pageCount). page_rows net p = None"
    by simp_all
  from partial_run [OF a, where ?sched1.0 = sched1 and ?sched2.0 = sched2 and s = s]
  show "\<exists>s' order.
            reloadCollection net sched1 sched2 s = Some (Inr (), s')
          \<and> loading s'
          \<and> loadingMessage s' = Some \<lparr>msg = msg_partial_failure, error = Some True\<rparr>
          \<and> mset order = mset (pagesNeedLoad pageCount)
          \<and> requests s' = requests s @ GetList 1 # map GetList order"
    by blast
next
  fix d bs pageCount
  assume "available_book_list net 1 = ListHtml d \<and> order_book d = Some bs
        \<and> bw_pagination d = Some pageCount
        \<and> (\<forall>p\<in>set (pagesNeedLoad pageCount). page_rows net p \<noteq> None)"
  then have a: "available_book_list net 1 = ListHtml d" "order_book d = Some bs"
    "bw_pagination d = Some pageCount" "\<forall>p\<in>set (pagesNeedLoad pageCount). page_rows net p \<noteq> None"
    by simp_all
  from success_run [OF a, where ?sched1.0 = sched1 and ?sched2.0 = sched2 and s = s]
  show "\<exists>s' order B order2.
            reloadCollection net sched1 sched2 s = Some (Inr (), s')
          \<and> \<not> loading s'
          \<and> loadingMessage s' = None
          \<and> mset order = mset (pagesNeedLoad pageCount)
          \<and> B = map (mergeBook (books s)) bs @ concat (map (page_records net (books s)) order)
          \<and> mset order2 = mset (filter (\<lambda>i. series (B ! i) = None) [0..<length B])
          \<and> books s' = enriched net B
          \<and> requests s' = requests s @ GetList 1 # map GetList order
                             @ map (\<lambda>i. GetProduct (id' (B ! i))) order2"
    by blast
qed

theorem listing_stage_gates_enrichment_witness:
  "(\<exists>s'. reloadCollection net_no_login [] [] (idle [book_A]) = Some (Inr (), s')
        \<and> loading s' \<and> loadingMessage s' = Some \<lparr>msg = msg_no_login, error = Some True\<rparr>
        \<and> requests s' = [GetList 1])
   \<and> (\<exists>s' order. reloadCollection net_three_pages [1] [] (idle [book_A]) = Some (Inr (), s')
        \<and> loading s' \<and> loadingMessage s' = Some \<lparr>msg = msg_partial_failure, error = Some True\<rparr>
        \<and> mset order = mset [2, 3]
        \<and> requests s' = GetList 1 # map GetList order)
   \<and> (\<exists>s'. reloadCollection net_two_pages [] [] (idle [book_A]) = Some (Inr (), s')
        \<and> \<not> loading s' \<and> loadingMessage s' = None
        \<and> books s' = enriched net_two_pages (map (mergeBook [book_A]) [row_A, row_B]))"
proof -
  note t1 = listing_stage_gates_enrichment [of net_no_login "[]" "[]" "idle [book_A]"]
  note t2 = listing_stage_gates_enrichment [of net_three_pages "[1]" "[]" "idle [book_A]"]
  note t3 = listing_stage_gates_enrichment [of net_two_pages "[]" "[]" "idle [book_A]"]
  have a: "\<exists>s'. reloadCollection net_no_login [] [] (idle [book_A]) = Some (Inr (), s')
        \<and> loading s' \<and> loadingMessage s' = Some \<lparr>msg = msg_no_login, error = Some True\<rparr>
        \<and> requests s' = [GetList 1]"
    using t1 [THEN conjunct1, rule_format,
        of "\<lparr>doc = None, books' = None, error' = Some NO_LOGIN\<rparr>" NO_LOGIN]
    by (simp add: net_no_login_def loadAvailableBookList_response_def idle_def)
  have b: "\<exists>s' order. reloadCollection net_three_pages [1] [] (idle [book_A]) = Some (Inr (), s')
        \<and> loading s' \<and> loadingMessage s' = Some \<lparr>msg = msg_partial_failure, error = Some True\<rparr>
        \<and> mset order = mset [2, 3]
        \<and> requests s' = GetList 1 # map GetList order"
    using t2 [THEN conjunct2, THEN conjunct1, rule_format,
        of "\<lparr>order_book = Some [\<lparr>id' = Num 1, name = [65]\<rparr>], bw_pagination = Some (Num 3)\<rparr>"
           "[\<lparr>id' = Num 1, name = [65]\<rparr>]" "Num 3"]
    by (simp add: net_three_pages_def page_def page_rows_def idle_def)
  have c: "\<exists>s'. reloadCollection net_two_pages [] [] (idle [book_A]) = Some (Inr (), s')
        \<and> \<not> loading s' \<and> loadingMessage s' = None
        \<and> books s' = enriched net_two_pages (map (mergeBook [book_A]) [row_A, row_B])"
    using t3 [THEN conjunct2, THEN conjunct2, rule_format,
        of "\<lparr>order_book = Some [row_A], bw_pagination = Some (Num 2)\<rparr>" "[row_A]" "Num 2"]
    by (auto simp: net_two_pages_def page_def page_rows_def page_records_def idle_def)
  from a b c show ?thesis by blast
qed

text \<open>
  C10. Two calls of \<^verbatim>\<open>switchTopSeries\<close> with the same name leave the membership of
  \<^verbatim>\<open>topSeries\<close> as it was: one call pushes the name when it is absent and removes every
  occurrence when it is present.
\<close>

theorem switchTopSeries_twice:
  "set (topSeries (switchTopSeries nm (switchTopSeries nm s))) = set (topSeries s)
   \<and> (nm \<notin> set (topSeries s) \<longrightarrow> topSeries (switchTopSeries nm s) = topSeries s @ [nm])
   \<and> (nm \<in> set (topSeries s) \<longrightarrow>
        nm \<notin> set (topSeries (switchTopSeries nm s))
        \<and> set (topSeries (switchTopSeries nm s)) = set (topSeries s) - {nm})"
  by (auto simp: switchTopSeries_def Let_def)

theorem switchTopSeries_twice_witness:
  "[83] \<notin> set (topSeries (idle []))
   \<and> topSeries (switchTopSeries [83] (idle [])) = [[83]]
   \<and> topSeries (switchTopSeries [83] (switchTopSeries [83] (idle []))) = []
   \<and> set (topSeries (switchTopSeries [83] (switchTopSeries [83] (switchTopSeries [83] (idle []))))) =
       set (topSeries (switchTopSeries [83] (idle [])))"
  using switchTopSeries_twice [of "[83]" "idle []"]
        switchTopSeries_twice [of "[83]" "switchTopSeries [83] (idle [])"]
  by (simp add: switchTopSeries_def idle_def)

end
